theory Spec2Isabelle
  imports Complex_Main
begin

section \<open>The distributed solver of challenge 3 (\<open>Solver.cpp\<close>)\<close>

text \<open>
  The development follows \<open>Solver.cpp\<close>. The ranks and the group size are C++ \<open>int\<close>s and
  are modelled as \<open>int\<close>; the column count \<open>n\<close> and the element counts are \<open>size_t\<close> and
  are modelled as \<open>nat\<close>. A \<open>size_t\<close> expression that contains a subtraction is modelled
  as an \<open>int\<close>: a negative value stands for the wrapped value \<open>2 ^ 64 + v\<close>, which lies
  beyond the end of every vector, so that using it as an index is an out-of-range access.
  Products and sums of sizes are bounded by the sizes of the vectors that hold the grid
  and are not wrapped.
\<close>

subsection \<open>The calls of the message-passing library\<close>

text \<open>
  A call records the offset of its buffer in the vector it points into, its element count
  and its peer. All calls of the source use the tag 0, the element type \<open>MPI_DOUBLE\<close> and
  the world communicator.
\<close>

datatype mpi_call =
    MPI_Send (buf: int) (count: nat) (dest: int)
  | MPI_Recv (buf: int) (count: nat) (source: int)
  | MPI_Sendrecv (sendbuf: int) (sendcount: nat) (dest: int)
                 (recvbuf: int) (recvcount: nat) (source: int)

subsection \<open>Partition arithmetic of \<open>initial_communication\<close>\<close>

text \<open>
  \<open>size_t expected_size = (rank == 0 or rank == size - 1) ? n*n/size + n : n*n/size + 2*n;\<close>
  The grid is square: \<open>n\<close> rows of \<open>n\<close> columns.
\<close>

definition expected_size :: "nat \<Rightarrow> int \<Rightarrow> int \<Rightarrow> nat" where
  "expected_size n wsize rank =
     (if rank = 0 \<or> rank = wsize - 1 then n * n div nat wsize + n
      else n * n div nat wsize + 2 * n)"

text \<open>The index expression \<open>(proc*n/size - 1)*n\<close> of the two sends.\<close>

definition slice_first :: "nat \<Rightarrow> int \<Rightarrow> int \<Rightarrow> int" where
  "slice_first n wsize proc = (int (nat proc * n div nat wsize) - 1) * int n"

text \<open>
  The calls that \<open>initial_communication\<close> issues on a given rank. Rank 0 first copies
  \<open>expected_size\<close> elements of the initial grid into its own buffer (no call), then sends
  to the last rank, then to the ranks \<open>1 .. size - 2\<close> in turn; every other rank posts one
  receive from rank 0.
\<close>

definition initial_communication_calls :: "nat \<Rightarrow> int \<Rightarrow> int \<Rightarrow> mpi_call list" where
  "initial_communication_calls n wsize rank =
     (let expected = expected_size n wsize rank in
      if rank = 0 then
        MPI_Send (slice_first n wsize (wsize - 1)) expected (wsize - 1)
          # map (\<lambda>proc. MPI_Send (slice_first n wsize proc) (expected + n) proc) [1..wsize - 2]
      else [MPI_Recv 0 expected 0])"

subsection \<open>The part of a local buffer that \<open>final_communication\<close> contributes\<close>

text \<open>
  \<open>gather_part n size rank len\<close> is the offset and the count of the send buffer of
  \<open>MPI_Gather\<close> for a local buffer of \<open>len\<close> elements: \<open>&mesh[0]\<close> and \<open>mesh.size() - n\<close> on
  rank 0, \<open>&mesh[n]\<close> and \<open>mesh.size() - n\<close> on the last rank, and on an interior rank
  \<open>&mesh[n]\<close> and \<open>mesh.size() - n\<close> after the buffer lost its last row.
\<close>

definition gather_part :: "nat \<Rightarrow> int \<Rightarrow> int \<Rightarrow> nat \<Rightarrow> int \<times> int" where
  "gather_part n wsize rank len =
     (if rank = 0 then (0, int len - int n)
      else if rank = wsize - 1 then (int n, int len - int n)
      else (int n, (int len - int n) - int n))"

text \<open>
  Where a rank's local buffer starts in the initial grid: rank 0 copies from index 0, the
  others receive the slice that starts at \<open>slice_first\<close>.
\<close>

definition local_origin :: "nat \<Rightarrow> int \<Rightarrow> int \<Rightarrow> int" where
  "local_origin n wsize rank = (if rank = 0 then 0 else slice_first n wsize rank)"

text \<open>
  The interior of a rank, in indices of the global grid: the elements of its slice that it
  contributes to the gather, for a local buffer of \<open>expected_size\<close> elements.
\<close>

definition interior_first :: "nat \<Rightarrow> int \<Rightarrow> int \<Rightarrow> int" where
  "interior_first n wsize rank =
     local_origin n wsize rank + fst (gather_part n wsize rank (expected_size n wsize rank))"

definition interior_count :: "nat \<Rightarrow> int \<Rightarrow> int \<Rightarrow> int" where
  "interior_count n wsize rank = snd (gather_part n wsize rank (expected_size n wsize rank))"

text \<open>Rank \<open>rank\<close> owns row \<open>row\<close> when the whole row lies in its interior.\<close>

definition owns :: "nat \<Rightarrow> int \<Rightarrow> int \<Rightarrow> nat \<Rightarrow> bool" where
  "owns n wsize rank row \<longleftrightarrow>
     interior_first n wsize rank \<le> int (row * n) \<and>
     int ((row + 1) * n) \<le> interior_first n wsize rank + interior_count n wsize rank"

definition owners :: "nat \<Rightarrow> int \<Rightarrow> nat \<Rightarrow> int list" where
  "owners n wsize row = filter (\<lambda>rank. owns n wsize rank row) [0..wsize - 1]"

subsection \<open>The update kernel and the run constants\<close>

text \<open>
  The class \<open>Mesh\<close> and the struct \<open>conditions\<close> are declared in headers that are not
  among the sources. The solver uses the kernel only through the operations below, so the
  kernel is a parameter: a state type \<open>'k\<close> with the operations that \<open>Solver.cpp\<close> calls.
  As the interface of the kernel is specified, \<open>get_mesh\<close> hands out a copy of the grid and
  \<open>set_mesh\<close> replaces it, so the vector \<open>mesh\<close> of the solver and the grid of \<open>mesh_obj\<close>
  are separate; \<open>Mesh\<close> is the constructor call \<open>Mesh(final_mesh, n, Domain(0, 1, 0, 1), f)\<close>.
  The residual is compared with the tolerance as a real number: the solver uses nothing of
  the two but the outcome of \<open>get_error() < tolerance\<close>. The two constants \<open>tolerance\<close> and
  \<open>n_max\<close> are parameters as well; \<open>n_max\<close> is compared with the \<open>int\<close> counter \<open>i\<close> and is an
  \<open>int\<close>. The counter is not wrapped at the width of an \<open>int\<close>: where the loops end it has
  not passed \<open>n_max\<close>.
\<close>

record ('k, 'a) Mesh_ops =
  update_seq :: "'k \<Rightarrow> 'k"
  update_par :: "int \<Rightarrow> 'k \<Rightarrow> 'k"
  get_error :: "'k \<Rightarrow> real"
  get_mesh :: "'k \<Rightarrow> 'a list"
  set_mesh :: "'a list \<Rightarrow> 'k \<Rightarrow> 'k"
  get_size :: "'k \<Rightarrow> nat \<times> nat"
  Mesh :: "'a list \<Rightarrow> nat \<Rightarrow> 'k"

record conditions =
  tolerance :: real
  n_max :: int

subsection \<open>The state of one process\<close>

text \<open>
  What a process does is logged in \<open>trace\<close>; what it prints and the files it writes are
  kept in \<open>console\<close> and \<open>files\<close>. The printed line \<open>Iter: i - time: ...\<close> is recorded with
  its iteration count; the times are wall-clock readings and are left out.
\<close>

datatype event =
    Update | Check bool | Allreduce_exit | Halo_exchange | Set_mesh | Allreduce_time | Gather

datatype console_line = Iter_line int

text \<open>
  The members of \<open>Solver\<close> (\<open>size\<close> is \<open>size_mpi\<close>, \<open>n\<close> is \<open>n_col\<close>), then the locals
  \<open>exit\<close>, \<open>exit_local\<close> and \<open>i\<close> (\<open>iter\<close>) of the solver loops, then the log.
\<close>

record ('k, 'a) Solver =
  rank :: int
  size_mpi :: int
  n_col :: nat
  mesh :: "'a list"
  mesh_obj :: 'k
  send_offset_1 :: int
  recv_offset_1 :: int
  send_offset_2 :: int
  recv_offset_2 :: int
  exit :: bool
  exit_local :: bool
  iter :: int
  trace :: "event list"
  console :: "console_line list"
  files :: "(string \<times> 'k) list"

text \<open>
  The first constructor, for a process that the library gave the rank \<open>r\<close> in a group of
  \<open>wsize\<close>. The kernel object \<open>m\<close> is built from the same vector. The locals start as the
  solver loops initialise them. (The second constructor sets no offset.)
\<close>

definition Solver_init :: "int \<Rightarrow> int \<Rightarrow> 'a list \<Rightarrow> nat \<Rightarrow> 'k \<Rightarrow> ('k, 'a) Solver" where
  "Solver_init r wsize msh n m =
     \<lparr>rank = r, size_mpi = wsize, n_col = n, mesh = msh, mesh_obj = m,
      send_offset_1 = int n, recv_offset_1 = 0,
      send_offset_2 = int (length msh) - 2 * int n,
      recv_offset_2 = int (length msh) - int n,
      exit = False, exit_local = False, iter = 1,
      trace = [], console = [], files = []\<rparr>"

subsection \<open>Buffers\<close>

datatype failure =
    Invalid_rank int | Out_of_range | Length_error | Count_mismatch | Negative_count | Unmatched

text \<open>Reading and writing \<open>cnt\<close> elements at an offset; \<open>None\<close> outside the vector.\<close>

definition region :: "'a list \<Rightarrow> int \<Rightarrow> nat \<Rightarrow> 'a list option" where
  "region xs off cnt =
     (if 0 \<le> off \<and> nat off + cnt \<le> length xs then Some (take cnt (drop (nat off) xs))
      else None)"

definition store :: "'a list \<Rightarrow> int \<Rightarrow> 'a list \<Rightarrow> 'a list option" where
  "store xs off ys =
     (if 0 \<le> off \<and> nat off + length ys \<le> length xs
      then Some (take (nat off) xs @ ys @ drop (nat off + length ys) xs)
      else None)"

subsection \<open>\<open>communicate_boundary\<close>\<close>

text \<open>The calls that \<open>communicate_boundary\<close> issues on a process, in order.\<close>

definition communicate_boundary :: "('k, 'a) Solver \<Rightarrow> mpi_call list" where
  "communicate_boundary s =
     (if rank s = 0 then
        [MPI_Sendrecv (send_offset_2 s) (n_col s) 1 (recv_offset_2 s) (n_col s) 1]
      else if rank s = size_mpi s - 1 then
        [MPI_Sendrecv (send_offset_1 s) (n_col s) (rank s - 1)
                      (recv_offset_1 s) (n_col s) (rank s - 1)]
      else
        [MPI_Sendrecv (send_offset_1 s) (n_col s) (rank s - 1)
                      (recv_offset_1 s) (n_col s) (rank s - 1),
         MPI_Sendrecv (send_offset_2 s) (n_col s) (rank s + 1)
                      (recv_offset_2 s) (n_col s) (rank s + 1)])"

text \<open>
  The library's side of the exchange. The group is the list of its processes in rank
  order, each with the calls it has still to make. Two combined send-receive calls that
  name each other complete together: each buffer receives what the other call sends. A
  peer outside the group is an error of the library (which aborts the run); a message
  longer than the receive count is one too.
\<close>

type_synonym ('k, 'a) world = "(('k, 'a) Solver \<times> mpi_call list) list"

definition sendrecv_pair ::
  "mpi_call \<Rightarrow> mpi_call \<Rightarrow> 'a list \<Rightarrow> 'a list \<Rightarrow> failure + ('a list \<times> 'a list)" where
  "sendrecv_pair c c' xs ys =
     (case (region xs (sendbuf c) (sendcount c), region ys (sendbuf c') (sendcount c')) of
        (Some out, Some inc) \<Rightarrow>
          if recvcount c < length inc \<or> recvcount c' < length out then Inl Count_mismatch
          else (case (store xs (recvbuf c) inc, store ys (recvbuf c') out) of
                  (Some xs', Some ys') \<Rightarrow> Inr (xs', ys')
                | _ \<Rightarrow> Inl Out_of_range)
      | _ \<Rightarrow> Inl Out_of_range)"

definition is_sendrecv_with :: "mpi_call \<Rightarrow> int \<Rightarrow> bool" where
  "is_sendrecv_with c p =
     (case c of MPI_Sendrecv _ _ d _ _ s \<Rightarrow> d = p \<and> s = p | _ \<Rightarrow> False)"

text \<open>
  Process \<open>r\<close> makes the call \<open>c\<close>: it completes with the next call of its peer, which must
  be the matching exchange.
\<close>

definition do_sendrecv :: "nat \<Rightarrow> mpi_call \<Rightarrow> ('k, 'a) world \<Rightarrow> failure + ('k, 'a) world" where
  "do_sendrecv r c w =
     (let p = dest c in
      if p < 0 \<or> int (length w) \<le> p then Inl (Invalid_rank p)
      else if \<not> is_sendrecv_with c p then Inl Unmatched
      else
        (case snd (w ! nat p) of
           [] \<Rightarrow> Inl Unmatched
         | c' # cs' \<Rightarrow>
             if \<not> is_sendrecv_with c' (int r) then Inl Unmatched
             else
               (case sendrecv_pair c c' (mesh (fst (w ! r))) (mesh (fst (w ! nat p))) of
                  Inl e \<Rightarrow> Inl e
                | Inr (xs', ys') \<Rightarrow>
                    Inr (w[r := ((fst (w ! r))\<lparr>mesh := xs'\<rparr>, snd (w ! r)),
                           nat p := ((fst (w ! nat p))\<lparr>mesh := ys'\<rparr>, cs')]))))"

fun serve :: "nat \<Rightarrow> mpi_call list \<Rightarrow> ('k, 'a) world \<Rightarrow> failure + ('k, 'a) world" where
  "serve r [] w = Inr w"
| "serve r (c # cs) w =
     (case do_sendrecv r c w of Inl e \<Rightarrow> Inl e | Inr w' \<Rightarrow> serve r cs w')"

text \<open>The processes are served in rank order, each to the end of its calls.\<close>

definition serve_rank :: "nat \<Rightarrow> ('k, 'a) world \<Rightarrow> failure + ('k, 'a) world" where
  "serve_rank r w = serve r (snd (w ! r)) (w[r := (fst (w ! r), [])])"

fun serve_all :: "nat list \<Rightarrow> ('k, 'a) world \<Rightarrow> failure + ('k, 'a) world" where
  "serve_all [] w = Inr w"
| "serve_all (r # rs) w =
     (case serve_rank r w of Inl e \<Rightarrow> Inl e | Inr w' \<Rightarrow> serve_all rs w')"

text \<open>All processes of the group call \<open>communicate_boundary\<close>.\<close>

definition communicate_boundary_all ::
  "('k, 'a) Solver list \<Rightarrow> failure + ('k, 'a) Solver list" where
  "communicate_boundary_all ws =
     (case serve_all [0..<length ws] (map (\<lambda>s. (s, communicate_boundary s)) ws) of
        Inl e \<Rightarrow> Inl e
      | Inr w \<Rightarrow> Inr (map fst w))"

subsection \<open>\<open>std::to_string\<close> and the file names\<close>

fun to_string_nat :: "nat \<Rightarrow> string" where
  "to_string_nat k =
     (if k < 10 then [''0123456789'' ! k]
      else to_string_nat (k div 10) @ [''0123456789'' ! (k mod 10)])"

declare to_string_nat.simps [simp del]

definition to_string :: "int \<Rightarrow> string" where
  "to_string k = (if k < 0 then CHR ''-'' # to_string_nat (nat (- k)) else to_string_nat (nat k))"

subsection \<open>The sequential and the thread-parallel solver\<close>

text \<open>
  One pass of the \<open>do ... while (!exit)\<close> loop: the sweep, the stopping test, the line
  printed when the test holds, \<open>++i\<close>. The two solvers differ in the sweep only, which is
  the parameter \<open>sweep\<close>. A loop that never leaves is \<open>None\<close>.
\<close>

definition local_pass :: "('k, 'a) Mesh_ops \<Rightarrow> conditions \<Rightarrow> ('k \<Rightarrow> 'k) \<Rightarrow>
    ('k, 'a) Solver \<Rightarrow> ('k, 'a) Solver" where
  "local_pass K c sweep s =
     (let m = sweep (mesh_obj s);
          e = (get_error K m < tolerance c \<or> iter s = n_max c - 1)
      in s\<lparr>mesh_obj := m, exit := e, iter := iter s + 1,
            trace := trace s @ [Update, Check e],
            console := (if e then console s @ [Iter_line (iter s)] else console s)\<rparr>)"

partial_function (option) local_loop :: "('k, 'a) Mesh_ops \<Rightarrow> conditions \<Rightarrow> ('k \<Rightarrow> 'k) \<Rightarrow>
    ('k, 'a) Solver \<Rightarrow> ('k, 'a) Solver option" where
  "local_loop K c sweep s =
     (let s' = local_pass K c sweep s in
      if exit s' then Some s' else local_loop K c sweep s')"

text \<open>After the loop the kernel object is written to a file named after its row count.\<close>

definition save_local :: "('k, 'a) Mesh_ops \<Rightarrow> ('k, 'a) Solver \<Rightarrow> ('k, 'a) Solver" where
  "save_local K s =
     s\<lparr>files := files s @
          [(''vtk_files/approx_sol-1-'' @ to_string_nat (fst (get_size K (mesh_obj s))) @ ''.vtk'',
            mesh_obj s)]\<rparr>"

definition solution_finder_sequential ::
  "('k, 'a) Mesh_ops \<Rightarrow> conditions \<Rightarrow> ('k, 'a) Solver \<Rightarrow> ('k, 'a) Solver option" where
  "solution_finder_sequential K c s =
     map_option (save_local K)
       (local_loop K c (update_seq K) (s\<lparr>exit := False, iter := 1\<rparr>))"

definition solution_finder_parallel ::
  "('k, 'a) Mesh_ops \<Rightarrow> conditions \<Rightarrow> int \<Rightarrow> ('k, 'a) Solver \<Rightarrow> ('k, 'a) Solver option" where
  "solution_finder_parallel K c n_tasks s =
     map_option (save_local K)
       (local_loop K c (update_par K n_tasks) (s\<lparr>exit := False, iter := 1\<rparr>))"

subsection \<open>\<open>final_communication\<close>\<close>

text \<open>
  The element count of the gather is the \<open>size_t\<close> value \<open>mesh.size() - n\<close>, passed as
  the \<open>int\<close> parameter \<open>sendcount\<close> of \<open>MPI_Gather\<close>. \<open>to_int\<close> is that conversion to
  a 32-bit \<open>int\<close>: the value modulo \<open>2 ^ 32\<close>, read as a signed number. (It is applied to
  the \<open>int\<close> that stands for the \<open>size_t\<close> value; \<open>2 ^ 64\<close> is a multiple of \<open>2 ^ 32\<close>.)
\<close>

definition to_int :: "int \<Rightarrow> int" where
  "to_int v = (v + 2 ^ 31) mod 2 ^ 32 - 2 ^ 31"

text \<open>
  What a process hands to \<open>MPI_Gather\<close>: an interior rank first drops its last row
  (\<open>mesh.resize(mesh.size() - n)\<close>, which fails for a buffer shorter than a row), then the
  send buffer is the part of the buffer given by \<open>gather_part\<close>, with the count converted
  to \<open>int\<close>. The library refuses a negative count.
\<close>

definition final_communication_send ::
  "('k, 'a) Solver \<Rightarrow> failure + (('k, 'a) Solver \<times> 'a list)" where
  "final_communication_send s =
     (let len = length (mesh s);
          part = gather_part (n_col s) (size_mpi s) (rank s) len;
          inner = (rank s \<noteq> 0 \<and> rank s \<noteq> size_mpi s - 1)
      in if inner \<and> len < n_col s then Inl Length_error
         else
           (let s' = (if inner then s\<lparr>mesh := take (len - n_col s) (mesh s)\<rparr> else s);
                cnt = to_int (snd part)
            in if cnt < 0 then Inl Negative_count
               else (case region (mesh s') (fst part) (nat cnt) of
                       None \<Rightarrow> Inl Out_of_range
                     | Some xs \<Rightarrow> Inr (s'\<lparr>trace := trace s' @ [Gather]\<rparr>, xs))))"

text \<open>
  The library's gather at the root: every process contributes \<open>recvcount\<close> elements, and
  the contribution of rank \<open>r\<close> is stored at \<open>recvbuf + r * recvcount\<close>.
\<close>

definition MPI_Gather :: "'a list list \<Rightarrow> nat \<Rightarrow> 'a list \<Rightarrow> failure + 'a list" where
  "MPI_Gather parts rcount rbuf =
     (if \<exists>p \<in> set parts. length p \<noteq> rcount then Inl Count_mismatch
      else if length rbuf < length parts * rcount then Inl Out_of_range
      else Inr (concat parts @ drop (length parts * rcount) rbuf))"

fun collect :: "(failure + 'b) list \<Rightarrow> failure + 'b list" where
  "collect [] = Inr []"
| "collect (x # xs) =
     (case x of
        Inl e \<Rightarrow> Inl e
      | Inr y \<Rightarrow> (case collect xs of Inl e \<Rightarrow> Inl e | Inr ys \<Rightarrow> Inr (y # ys)))"

text \<open>The file that rank 0 writes: the gathered grid as a \<open>Mesh\<close> of \<open>n\<close> columns.\<close>

definition save_final :: "('k, 'a) Mesh_ops \<Rightarrow> 'a list \<Rightarrow> ('k, 'a) Solver \<Rightarrow> ('k, 'a) Solver" where
  "save_final K final_mesh s =
     (if rank s = 0 then
        (let last_mesh = Mesh K final_mesh (n_col s)
         in s\<lparr>files := files s @
              [(''vtk_files/approx_sol-'' @ to_string (size_mpi s) @ ''-'' @
                  to_string_nat (fst (get_size K last_mesh)) @ ''.vtk'', last_mesh)]\<rparr>)
      else s)"

text \<open>
  All processes call \<open>final_communication\<close>; \<open>final_mesh\<close> is the vector of rank 0 (the
  receive arguments of the other ranks are not used by the library). The receive count is
  the root's own \<open>mesh.size() - n\<close>.
\<close>

definition final_communication_all :: "('k, 'a) Mesh_ops \<Rightarrow> ('k, 'a) Solver list \<Rightarrow> 'a list \<Rightarrow>
    failure + (('k, 'a) Solver list \<times> 'a list)" where
  "final_communication_all K ws final_mesh =
     (case collect (map final_communication_send ws) of
        Inl e \<Rightarrow> Inl e
      | Inr sent \<Rightarrow>
          (case MPI_Gather (map snd sent) (length (snd (hd sent))) final_mesh of
             Inl e \<Rightarrow> Inl e
           | Inr final_mesh' \<Rightarrow> Inr (map (save_final K final_mesh' \<circ> fst) sent, final_mesh')))"

subsection \<open>\<open>initial_communication\<close>\<close>

text \<open>
  Rank 0 copies the first \<open>expected_size\<close> elements of the initial grid into its buffer
  (\<open>mesh[i] = initial_mesh[i]\<close>); an index beyond the end of one of the two vectors is an
  out-of-range access.
\<close>

definition initial_copy :: "'a list \<Rightarrow> ('k, 'a) Solver \<Rightarrow> failure + ('k, 'a) Solver" where
  "initial_copy initial_mesh s =
     (let expected = expected_size (n_col s) (size_mpi s) (rank s) in
      if expected \<le> length initial_mesh \<and> expected \<le> length (mesh s)
      then Inr (s\<lparr>mesh := take expected initial_mesh @ drop expected (mesh s)\<rparr>)
      else Inl Out_of_range)"

definition is_send :: "mpi_call \<Rightarrow> bool" where
  "is_send c = (case c of MPI_Send _ _ _ \<Rightarrow> True | _ \<Rightarrow> False)"

definition is_recv_from :: "mpi_call \<Rightarrow> int \<Rightarrow> bool" where
  "is_recv_from c p = (case c of MPI_Recv _ _ s \<Rightarrow> s = p | _ \<Rightarrow> False)"

text \<open>
  The library's side of a blocking send of rank 0, whose message is read from the initial
  grid. The message is delivered when the next call of the destination is a receive from
  rank 0 (a message longer than the receive count is an error). When the destination has
  no such receive, a library that buffers the message (\<open>eager\<close>) lets the send return, and
  one that does not leaves the sender blocked for ever, which is \<open>None\<close>. Both are
  permitted to the library, so \<open>eager\<close> is a parameter.
\<close>

definition do_send ::
  "bool \<Rightarrow> 'a list \<Rightarrow> mpi_call \<Rightarrow> ('k, 'a) world \<Rightarrow> (failure + ('k, 'a) world) option" where
  "do_send eager initial_mesh c w =
     (let p = dest c in
      if p < 0 \<or> int (length w) \<le> p then Some (Inl (Invalid_rank p))
      else
        (case region initial_mesh (buf c) (count c) of
           None \<Rightarrow> Some (Inl Out_of_range)
         | Some msg \<Rightarrow>
             (case snd (w ! nat p) of
                [] \<Rightarrow> if eager then Some (Inr w) else None
              | c' # cs' \<Rightarrow>
                  if \<not> is_recv_from c' 0 then (if eager then Some (Inr w) else None)
                  else if count c' < length msg then Some (Inl Count_mismatch)
                  else
                    (case store (mesh (fst (w ! nat p))) (buf c') msg of
                       None \<Rightarrow> Some (Inl Out_of_range)
                     | Some m \<Rightarrow>
                         Some (Inr (w[nat p := ((fst (w ! nat p))\<lparr>mesh := m\<rparr>, cs')]))))))"

fun serve_sends ::
  "bool \<Rightarrow> 'a list \<Rightarrow> mpi_call list \<Rightarrow> ('k, 'a) world \<Rightarrow> (failure + ('k, 'a) world) option" where
  "serve_sends eager initial_mesh [] w = Some (Inr w)"
| "serve_sends eager initial_mesh (c # cs) w =
     (case do_send eager initial_mesh c w of
        None \<Rightarrow> None
      | Some (Inl e) \<Rightarrow> Some (Inl e)
      | Some (Inr w') \<Rightarrow> serve_sends eager initial_mesh cs w')"

text \<open>
  All processes of the group call \<open>initial_communication\<close>; \<open>initial_mesh\<close> is the vector of
  rank 0. Rank 0 copies, then its sends are served in order against the receives that the
  other processes have posted. A receive that is left without its message blocks for
  ever.
\<close>

definition initial_communication_all ::
  "bool \<Rightarrow> 'a list \<Rightarrow> ('k, 'a) Solver list \<Rightarrow> (failure + ('k, 'a) Solver list) option" where
  "initial_communication_all eager initial_mesh ws =
     (let calls = (\<lambda>s. initial_communication_calls (n_col s) (size_mpi s) (rank s)) in
      case collect (map (\<lambda>s. if rank s = 0 then initial_copy initial_mesh s else Inr s) ws) of
        Inl e \<Rightarrow> Some (Inl e)
      | Inr ws' \<Rightarrow>
          (case serve_sends eager initial_mesh (filter is_send (concat (map calls ws)))
                  (map (\<lambda>s. (s, filter (\<lambda>c. \<not> is_send c) (calls s))) ws') of
             None \<Rightarrow> None
           | Some (Inl e) \<Rightarrow> Some (Inl e)
           | Some (Inr w) \<Rightarrow> if list_all (\<lambda>e. snd e = []) w then Some (Inr (map fst w)) else None))"

subsection \<open>\<open>solution_finder_mpi\<close>\<close>

text \<open>The guarded sweep and stopping test at the head of the loop body.\<close>

definition local_update :: "('k, 'a) Mesh_ops \<Rightarrow> conditions \<Rightarrow> int \<Rightarrow>
    ('k, 'a) Solver \<Rightarrow> ('k, 'a) Solver" where
  "local_update K c thread s =
     (if \<not> exit_local s then
        (let m = update_par K thread (mesh_obj s);
             e = (get_error K m < tolerance c \<or> iter s = n_max c - 1)
         in s\<lparr>mesh_obj := m, exit_local := e, trace := trace s @ [Update, Check e]\<rparr>)
      else s)"

text \<open>
  The logical-and reduction of the flags \<open>exit_local\<close> of all processes. The flags are
  \<open>int\<close>s that hold 0 or 1; they are modelled as truth values.
\<close>

definition MPI_Allreduce_LAND :: "bool list \<Rightarrow> bool" where
  "MPI_Allreduce_LAND flags = list_all (\<lambda>b. b) flags"

text \<open>The reduction's result arrives in \<open>exit\<close>; then \<open>mesh = mesh_obj.get_mesh()\<close>.\<close>

definition after_reduce :: "('k, 'a) Mesh_ops \<Rightarrow> bool \<Rightarrow> ('k, 'a) Solver \<Rightarrow> ('k, 'a) Solver" where
  "after_reduce K ex s =
     s\<lparr>exit := ex, mesh := get_mesh K (mesh_obj s), trace := trace s @ [Allreduce_exit]\<rparr>"

text \<open>After the exchange: \<open>if (!exit) { mesh_obj.set_mesh(mesh); ++i; }\<close>.\<close>

definition after_exchange :: "('k, 'a) Mesh_ops \<Rightarrow> ('k, 'a) Solver \<Rightarrow> ('k, 'a) Solver" where
  "after_exchange K s =
     (if \<not> exit s then
        s\<lparr>mesh_obj := set_mesh K (mesh s) (mesh_obj s), iter := iter s + 1,
          trace := trace s @ [Halo_exchange, Set_mesh]\<rparr>
      else s\<lparr>trace := trace s @ [Halo_exchange]\<rparr>)"

text \<open>
  One round of the loop on all processes. The reduction and the exchange are blocking
  collective steps, so the processes go through the rounds together.
\<close>

definition mpi_round :: "('k, 'a) Mesh_ops \<Rightarrow> conditions \<Rightarrow> int \<Rightarrow> ('k, 'a) Solver list \<Rightarrow>
    failure + ('k, 'a) Solver list" where
  "mpi_round K c thread ws =
     (let ws1 = map (local_update K c thread) ws;
          ex = MPI_Allreduce_LAND (map exit_local ws1);
          ws2 = map (after_reduce K ex) ws1
      in case communicate_boundary_all ws2 of
           Inl e \<Rightarrow> Inl e
         | Inr ws3 \<Rightarrow> Inr (map (after_exchange K) ws3))"

partial_function (option) mpi_loop :: "('k, 'a) Mesh_ops \<Rightarrow> conditions \<Rightarrow> int \<Rightarrow>
    ('k, 'a) Solver list \<Rightarrow> (failure + ('k, 'a) Solver list) option" where
  "mpi_loop K c thread ws =
     (case mpi_round K c thread ws of
        Inl e \<Rightarrow> Some (Inl e)
      | Inr ws' \<Rightarrow> if list_all exit ws' then Some (Inr ws') else mpi_loop K c thread ws')"

text \<open>
  After the loop: the reduction of the times, the line that rank 0 prints, and
  \<open>mesh = mesh_obj.get_mesh()\<close>.
\<close>

definition after_loop :: "('k, 'a) Mesh_ops \<Rightarrow> ('k, 'a) Solver \<Rightarrow> ('k, 'a) Solver" where
  "after_loop K s =
     s\<lparr>mesh := get_mesh K (mesh_obj s), trace := trace s @ [Allreduce_time],
       console := (if rank s = 0 then console s @ [Iter_line (iter s)] else console s)\<rparr>"

definition start_loop :: "('k, 'a) Solver \<Rightarrow> ('k, 'a) Solver" where
  "start_loop s = s\<lparr>exit := False, exit_local := False, iter := 1\<rparr>"

definition solution_finder_mpi :: "('k, 'a) Mesh_ops \<Rightarrow> conditions \<Rightarrow> int \<Rightarrow>
    ('k, 'a) Solver list \<Rightarrow> 'a list \<Rightarrow> (failure + (('k, 'a) Solver list \<times> 'a list)) option" where
  "solution_finder_mpi K c thread ws final_mesh =
     map_option
       (\<lambda>r. case r of
              Inl e \<Rightarrow> Inl e
            | Inr ws' \<Rightarrow> final_communication_all K (map (after_loop K) ws') final_mesh)
       (mpi_loop K c thread (map start_loop ws))"

subsection \<open>The distributed mode\<close>

text \<open>
  Modelled from the spec: the driver that runs the distributed mode is not among the
  sources, and the specification gives the mode as scatter, loop, gather. The processes
  call \<open>initial_communication\<close>, the kernel of each process takes the local buffer that the
  scatter filled, and the processes call \<open>solution_finder_mpi\<close>. \<open>gathered_grid\<close> is the
  grid that a run hands back: there is none when the run does not return or ends in an
  error.
\<close>

definition distributed_mode :: "bool \<Rightarrow> ('k, 'a) Mesh_ops \<Rightarrow> conditions \<Rightarrow> int \<Rightarrow> 'a list \<Rightarrow>
    ('k, 'a) Solver list \<Rightarrow> 'a list \<Rightarrow> (failure + (('k, 'a) Solver list \<times> 'a list)) option" where
  "distributed_mode eager K c thread initial_mesh ws final_mesh =
     (case initial_communication_all eager initial_mesh ws of
        None \<Rightarrow> None
      | Some (Inl e) \<Rightarrow> Some (Inl e)
      | Some (Inr ws') \<Rightarrow>
          solution_finder_mpi K c thread
            (map (\<lambda>s. s\<lparr>mesh_obj := set_mesh K (mesh s) (mesh_obj s)\<rparr>) ws') final_mesh)"

definition gathered_grid ::
  "(failure + (('k, 'a) Solver list \<times> 'a list)) option \<Rightarrow> 'a list option" where
  "gathered_grid res = (case res of Some (Inr (ws, final_mesh)) \<Rightarrow> Some final_mesh | _ \<Rightarrow> None)"

subsection \<open>Notions used in the proofs about the exchange\<close>

text \<open>
  \<open>forget_mesh\<close> blanks the local buffer, so that two states with the same image differ in
  the buffer only. \<open>lined_up n ws\<close> says that \<open>ws\<close> is a group of at least two processes in
  rank order, each with the offsets of the first constructor for its present buffer, which
  holds at least two rows. \<open>served k base w\<close> describes the group after the ranks below
  \<open>k\<close> finished their calls.
\<close>

definition forget_mesh :: "('k, 'a) Solver \<Rightarrow> ('k, 'a) Solver" where
  "forget_mesh s = s\<lparr>mesh := []\<rparr>"

definition skeleton :: "('k, 'a) world \<Rightarrow> ('k, 'a) Solver list" where
  "skeleton w = map (\<lambda>e. forget_mesh (fst e)) w"

definition lined_up :: "nat \<Rightarrow> ('k, 'a) Solver list \<Rightarrow> bool" where
  "lined_up n ws \<longleftrightarrow>
     2 \<le> length ws \<and>
     (\<forall>r < length ws.
        rank (ws ! r) = int r \<and> size_mpi (ws ! r) = int (length ws) \<and> n_col (ws ! r) = n \<and>
        send_offset_1 (ws ! r) = int n \<and> recv_offset_1 (ws ! r) = 0 \<and>
        send_offset_2 (ws ! r) = int (length (mesh (ws ! r))) - 2 * int n \<and>
        recv_offset_2 (ws ! r) = int (length (mesh (ws ! r))) - int n \<and>
        2 * n \<le> length (mesh (ws ! r)))"

definition pending :: "nat \<Rightarrow> ('k, 'a) Solver list \<Rightarrow> nat \<Rightarrow> mpi_call list" where
  "pending k base j =
     (if j < k then [] else if j = k \<and> 0 < k then tl (communicate_boundary (base ! j))
      else communicate_boundary (base ! j))"

definition served :: "nat \<Rightarrow> ('k, 'a) Solver list \<Rightarrow> ('k, 'a) world \<Rightarrow> bool" where
  "served k base w \<longleftrightarrow>
     length w = length base \<and>
     (\<forall>j < length base.
        forget_mesh (fst (w ! j)) = forget_mesh (base ! j) \<and>
        length (mesh (fst (w ! j))) = length (mesh (base ! j)) \<and>
        snd (w ! j) = pending k base j)"

subsection \<open>Notions used in the statements about the gather\<close>

text \<open>
  \<open>without_halo\<close> follows the words of the specification: rank 0 contributes its buffer
  without the trailing halo row, the last rank its buffer without the leading halo row, and
  an interior rank its buffer without both. \<open>gather_ready\<close> is the state in which a process
  leaves the gather. \<open>in_rank_order n ws\<close> says that \<open>ws\<close> lists the processes of a group by
  rank, all with \<open>n\<close> columns.
\<close>

definition without_halo :: "('k, 'a) Solver \<Rightarrow> 'a list" where
  "without_halo s =
     (if rank s = 0 then take (length (mesh s) - n_col s) (mesh s)
      else if rank s = size_mpi s - 1 then drop (n_col s) (mesh s)
      else drop (n_col s) (take (length (mesh s) - n_col s) (mesh s)))"

definition gather_ready :: "('k, 'a) Solver \<Rightarrow> ('k, 'a) Solver" where
  "gather_ready s =
     (if rank s \<noteq> 0 \<and> rank s \<noteq> size_mpi s - 1
      then s\<lparr>mesh := take (length (mesh s) - n_col s) (mesh s), trace := trace s @ [Gather]\<rparr>
      else s\<lparr>trace := trace s @ [Gather]\<rparr>)"

definition in_rank_order :: "nat \<Rightarrow> ('k, 'a) Solver list \<Rightarrow> bool" where
  "in_rank_order n ws \<longleftrightarrow>
     (\<forall>r < length ws. rank (ws ! r) = int r \<and> size_mpi (ws ! r) = int (length ws) \<and>
        n_col (ws ! r) = n)"

text \<open>
  What \<open>initial_communication\<close> puts into the local buffer of rank \<open>r\<close>: rank 0 copies the
  first \<open>expected_size\<close> elements of the initial grid, and every other rank receives the
  elements of the one send addressed to it.
\<close>

definition scattered :: "'a list \<Rightarrow> nat \<Rightarrow> int \<Rightarrow> int \<Rightarrow> 'a list option" where
  "scattered initial_mesh n wsize r =
     (if r = 0 then region initial_mesh 0 (expected_size n wsize 0)
      else (case filter (\<lambda>c. dest c = r) (initial_communication_calls n wsize 0) of
              [c] \<Rightarrow> region initial_mesh (buf c) (count c)
            | _ \<Rightarrow> None))"

subsection \<open>A sample kernel\<close>

text \<open>
  A small kernel on which the solver can be run: its state is the grid, the column count
  and the number of sweeps made so far; a sweep adds one to every sample, and the residual
  of the grid \<open>xs\<close> after \<open>k\<close> sweeps is \<open>e xs k\<close>.
\<close>

definition sample_kernel ::
  "(int list \<Rightarrow> nat \<Rightarrow> real) \<Rightarrow> (int list \<times> nat \<times> nat, int) Mesh_ops" where
  "sample_kernel e =
     \<lparr>update_seq = (\<lambda>(xs, n, k). (map (\<lambda>x. x + 1) xs, n, k + 1)),
      update_par = (\<lambda>t (xs, n, k). (map (\<lambda>x. x + 1) xs, n, k + 1)),
      get_error = (\<lambda>(xs, n, k). e xs k),
      get_mesh = (\<lambda>(xs, n, k). xs),
      set_mesh = (\<lambda>ys (xs, n, k). (ys, n, k)),
      get_size = (\<lambda>(xs, n, k). (length xs div n, n)),
      Mesh = (\<lambda>xs n. (xs, n, 0))\<rparr>"

subsection \<open>Notions used in the statements about the loops\<close>

text \<open>
  \<open>swept sweep s j\<close> is the state in which the sequential or thread-parallel loop leaves
  after \<open>j\<close> sweeps from the state \<open>s\<close>.
\<close>

definition swept :: "('k \<Rightarrow> 'k) \<Rightarrow> ('k, 'a) Solver \<Rightarrow> nat \<Rightarrow> ('k, 'a) Solver" where
  "swept sweep s j =
     s\<lparr>mesh_obj := (sweep ^^ j) (mesh_obj s), exit := True, iter := iter s + int j,
       trace := trace s @ concat (replicate (j - 1) [Update, Check False]) @ [Update, Check True],
       console := console s @ [Iter_line (iter s + int j - 1)]\<rparr>"

text \<open>
  The processes of a distributed run: process \<open>r\<close> constructs its solver from its local
  vector \<open>bufs ! r\<close> and its kernel object \<open>ks ! r\<close>.
\<close>

definition process_group :: "nat \<Rightarrow> 'a list list \<Rightarrow> 'k list \<Rightarrow> ('k, 'a) Solver list" where
  "process_group n bufs ks =
     map (\<lambda>r. Solver_init (int r) (int (length bufs)) (bufs ! r) n (ks ! r)) [0..<length bufs]"

text \<open>
  What the distributed loop needs of the kernel: a sweep keeps the size of the grid, and
  \<open>set_mesh\<close> installs a grid of the size it is given.
\<close>

definition keeps_length :: "('k, 'a) Mesh_ops \<Rightarrow> bool" where
  "keeps_length K \<longleftrightarrow>
     (\<forall>t k. length (get_mesh K (update_par K t k)) = length (get_mesh K k)) \<and>
     (\<forall>m k. length (get_mesh K (set_mesh K m k)) = length m)"

text \<open>
  The log of a process of the distributed loop. A round in which the process sweeps and is
  not done afterwards logs \<open>Update, Check False, Allreduce_exit, Halo_exchange, Set_mesh\<close>;
  a round after it became done logs \<open>Allreduce_exit, Halo_exchange, Set_mesh\<close>; the last
  round of the loop has no \<open>Set_mesh\<close>. \<open>done_trace k m\<close> is the log of a process that became
  done in round \<open>k\<close> of a loop of \<open>m\<close> rounds.
\<close>

definition busy :: "nat \<Rightarrow> event list" where
  "busy j = concat (replicate j [Update, Check False, Allreduce_exit, Halo_exchange, Set_mesh])"

definition idle :: "nat \<Rightarrow> event list" where
  "idle j = concat (replicate j [Allreduce_exit, Halo_exchange, Set_mesh])"

definition done_trace :: "nat \<Rightarrow> nat \<Rightarrow> event list" where
  "done_trace k m =
     busy (k - 1) @ [Update, Check True] @ idle (m - k) @ [Allreduce_exit, Halo_exchange]"

text \<open>
  Invariants of the distributed loop, for the proofs: \<open>ready\<close> for the members that the loop
  does not change and the size of the kernel's grid, \<open>log_ok\<close> for the log of a process at
  iteration count \<open>i\<close>, \<open>in_loop\<close> for the group. \<open>round_of\<close> is the effect of one round on a
  process, given the result \<open>ex\<close> of the reduction and the buffer \<open>m\<close> after the exchange.
\<close>

definition ready :: "('k, 'a) Mesh_ops \<Rightarrow> nat \<Rightarrow> (nat \<Rightarrow> nat) \<Rightarrow> ('k, 'a) Solver list \<Rightarrow> bool" where
  "ready K n L ws \<longleftrightarrow>
     2 \<le> length ws \<and>
     (\<forall>r < length ws.
        rank (ws ! r) = int r \<and> size_mpi (ws ! r) = int (length ws) \<and> n_col (ws ! r) = n \<and>
        send_offset_1 (ws ! r) = int n \<and> recv_offset_1 (ws ! r) = 0 \<and>
        send_offset_2 (ws ! r) = int (L r) - 2 * int n \<and>
        recv_offset_2 (ws ! r) = int (L r) - int n \<and>
        2 * n \<le> L r \<and> length (get_mesh K (mesh_obj (ws ! r))) = L r)"

definition round_of :: "('k, 'a) Mesh_ops \<Rightarrow> conditions \<Rightarrow> int \<Rightarrow> bool \<Rightarrow> 'a list \<Rightarrow>
    ('k, 'a) Solver \<Rightarrow> ('k, 'a) Solver" where
  "round_of K c thread ex m s =
     after_exchange K ((after_reduce K ex (local_update K c thread s))\<lparr>mesh := m\<rparr>)"

definition log_ok :: "nat \<Rightarrow> ('k, 'a) Solver \<Rightarrow> bool" where
  "log_ok i s \<longleftrightarrow>
     (if exit s then exit_local s \<and> (\<exists>k. 1 \<le> k \<and> k \<le> i \<and> trace s = done_trace k i)
      else if exit_local s then
        (\<exists>k. 1 \<le> k \<and> k < i \<and> trace s = busy (k - 1) @ [Update, Check True] @ idle (i - k))
      else trace s = busy (i - 1))"

definition in_loop :: "('k, 'a) Mesh_ops \<Rightarrow> conditions \<Rightarrow> nat \<Rightarrow> (nat \<Rightarrow> nat) \<Rightarrow> nat \<Rightarrow>
    ('k, 'a) Solver list \<Rightarrow> bool" where
  "in_loop K c n L i ws \<longleftrightarrow>
     ready K n L ws \<and> 1 \<le> i \<and> int i \<le> n_max c - 1 \<and>
     (\<forall>s \<in> set ws. iter s = int i \<and> log_ok i s \<and> console s = [] \<and> files s = []) \<and>
     ((\<forall>k. \<not> get_error K k < tolerance c) \<longrightarrow>
        (\<forall>s \<in> set ws. if exit s then int i = n_max c - 1 else \<not> exit_local s)) \<and>
     ((\<forall>k. get_error K k < tolerance c) \<longrightarrow> i = 1)"

text \<open>The name of the file that rank 0 of a group of \<open>wsize\<close> writes for the gathered grid.\<close>

definition final_name :: "('k, 'a) Mesh_ops \<Rightarrow> nat \<Rightarrow> nat \<Rightarrow> 'a list \<Rightarrow> string" where
  "final_name K wsize n final_mesh =
     ''vtk_files/approx_sol-'' @ to_string (int wsize) @ ''-'' @
       to_string_nat (fst (get_size K (Mesh K final_mesh n))) @ ''.vtk''"

subsection \<open>Notions used in the statements about the rounds\<close>

text \<open>
  What a halo exchange has to do with the buffers \<open>bs\<close> of a group, in the words of the
  specification. \<open>passed_down n bs k\<close> is the row that rank \<open>k\<close> sends to rank \<open>k + 1\<close>: the
  row before its trailing halo row, as it is when rank \<open>k\<close> has received its leading halo
  row from rank \<open>k - 1\<close> (the exchange with rank \<open>k - 1\<close> comes first). For a rank with an
  interior row this is its last interior row, which the exchange does not touch.
  \<open>halo_exchanged n bs r\<close> is the buffer of rank \<open>r\<close> after the exchange: the leading halo
  row has become the row that rank \<open>r - 1\<close> passed down, the trailing halo row has become
  the first interior row of rank \<open>r + 1\<close> (the row after that rank's leading halo row), and
  the rows between them are as they were. Rank 0 has no leading halo row and the last rank
  has no trailing one: there the row stays.
\<close>

fun passed_down :: "nat \<Rightarrow> 'a list list \<Rightarrow> nat \<Rightarrow> 'a list" where
  "passed_down n bs 0 = take n (drop (length (bs ! 0) - 2 * n) (bs ! 0))"
| "passed_down n bs (Suc k) =
     take n (drop (length (bs ! Suc k) - 2 * n) (passed_down n bs k @ drop n (bs ! Suc k)))"

definition halo_exchanged :: "nat \<Rightarrow> 'a list list \<Rightarrow> nat \<Rightarrow> 'a list" where
  "halo_exchanged n bs r =
     (if r = 0 then take n (bs ! r) else passed_down n bs (r - 1)) @
     take (length (bs ! r) - 2 * n) (drop n (bs ! r)) @
     (if Suc r = length bs then drop (length (bs ! r) - n) (bs ! r)
      else take n (drop n (bs ! (r + 1))))"

text \<open>
  \<open>exchanging K c thread ws r\<close> is the state in which process \<open>r\<close> calls
  \<open>communicate_boundary\<close> in the round that the group enters as \<open>ws\<close>; \<open>neighbours N r\<close> are
  the peers of rank \<open>r\<close> in a group of \<open>N > 1\<close> processes, in the order of its calls.
\<close>

definition exchanging :: "('k, 'a) Mesh_ops \<Rightarrow> conditions \<Rightarrow> int \<Rightarrow> ('k, 'a) Solver list \<Rightarrow>
    nat \<Rightarrow> ('k, 'a) Solver" where
  "exchanging K c thread ws r =
     after_reduce K (MPI_Allreduce_LAND (map (\<lambda>s. exit_local (local_update K c thread s)) ws))
       (local_update K c thread (ws ! r))"

definition neighbours :: "nat \<Rightarrow> nat \<Rightarrow> int list" where
  "neighbours N r =
     (if r = 0 then [1] else if Suc r = N then [int r - 1] else [int r - 1, int r + 1])"

text \<open>
  For the proofs: the buffers of the group after the ranks below \<open>k\<close> finished their
  calls. Rank \<open>k\<close> itself has received its leading halo row and nothing else.
\<close>

definition exchanged_below :: "nat \<Rightarrow> nat \<Rightarrow> ('k, 'a) Solver list \<Rightarrow> ('k, 'a) world \<Rightarrow> bool" where
  "exchanged_below n k base w \<longleftrightarrow>
     (\<forall>j < length base.
        mesh (fst (w ! j)) =
          (if j < k then halo_exchanged n (map mesh base) j
           else if j = k \<and> 0 < k then
             passed_down n (map mesh base) (k - 1) @ drop n (mesh (base ! k))
           else mesh (base ! j)))"

text \<open>
  \<open>loop_head K c thread j ws\<close> is the group at the head of round \<open>j + 1\<close> of the distributed
  loop that starts in \<open>ws\<close>, and \<open>None\<close> when the loop has ended before that round.
\<close>

fun loop_head :: "('k, 'a) Mesh_ops \<Rightarrow> conditions \<Rightarrow> int \<Rightarrow> nat \<Rightarrow> ('k, 'a) Solver list \<Rightarrow>
    ('k, 'a) Solver list option" where
  "loop_head K c thread 0 ws = Some ws"
| "loop_head K c thread (Suc j) ws =
     (case mpi_round K c thread ws of
        Inl e \<Rightarrow> None
      | Inr ws' \<Rightarrow> if list_all exit ws' then None else loop_head K c thread j ws')"

section \<open>Properties\<close>

subsection \<open>The interior ranges\<close>

lemma filter_upto_only:
  assumes "a \<le> c" "c \<le> b" "\<And>x. a \<le> x \<Longrightarrow> x \<le> b \<Longrightarrow> P x \<longleftrightarrow> x = c"
  shows "filter P [a..b] = [c]"
proof -
  have split: "[a..b] = [a..c - 1] @ c # [c + 1..b]"
    using assms(1,2) by (rule upto_split3)
  have l: "filter P [a..c - 1] = []"
    using assms by (auto simp: filter_empty_conv)
  have r: "filter P [c + 1..b] = []"
    using assms by (auto simp: filter_empty_conv)
  have "P c" using assms by simp
  then show ?thesis by (simp add: split l r)
qed

lemma interior_first_dvd:
  assumes "1 \<le> wsize" "n = k * nat wsize" "0 \<le> rk" "rk < wsize"
  shows "interior_first n wsize rk = rk * int k * int n"
proof (cases "rk = 0")
  case True
  then show ?thesis by (simp add: interior_first_def local_origin_def gather_part_def)
next
  case False
  have q: "nat rk * n div nat wsize = nat rk * k"
    using assms by simp
  have "interior_first n wsize rk = (int (nat rk * k) - 1) * int n + int n"
    using False
    by (simp add: interior_first_def local_origin_def gather_part_def slice_first_def q
        del: of_nat_mult)
  also have "\<dots> = rk * int k * int n"
    using assms(3) by (simp add: algebra_simps)
  finally show ?thesis .
qed

lemma interior_count_dvd:
  assumes "1 \<le> wsize" "n = k * nat wsize"
  shows "interior_count n wsize rk = int k * int n"
proof -
  have "n * n div nat wsize = k * n" using assms by simp
  then show ?thesis
    by (simp add: interior_count_def gather_part_def expected_size_def)
qed

lemma row_in_block:
  fixes r k row :: nat
  assumes "0 < k"
  shows "(r * k \<le> row \<and> row + 1 \<le> (r + 1) * k) \<longleftrightarrow> row div k = r"
proof
  assume a: "r * k \<le> row \<and> row + 1 \<le> (r + 1) * k"
  then have "row < (r + 1) * k" by simp
  then have "row div k < r + 1" using assms by (simp add: div_less_iff_less_mult)
  moreover have "r \<le> row div k" using a assms by (simp add: less_eq_div_iff_mult_less_eq)
  ultimately show "row div k = r" by simp
next
  assume "row div k = r"
  then have r: "r = row div k" by simp
  have "row div k * k \<le> row" by simp
  moreover have "row < (row div k + 1) * k"
    using assms by (metis Suc_eq_plus1 dividend_less_div_times mult.commute mult_Suc_right add.commute)
  ultimately show "r * k \<le> row \<and> row + 1 \<le> (r + 1) * k" unfolding r by simp
qed

lemma owns_dvd:
  assumes "1 \<le> wsize" "n = k * nat wsize" "0 \<le> rk" "rk < wsize" "0 < k" 
  shows "owns n wsize rk row \<longleftrightarrow> rk = int (row div k)"
proof -
  have npos: "0 < n" using assms by simp
  obtain r where r: "rk = int r" using assms(3) by (metis nonneg_int_cases)
  have f: "interior_first n wsize rk = int (r * k * n)"
    using interior_first_dvd[OF assms(1-4)] r by simp
  have c: "interior_count n wsize rk = int (k * n)"
    using interior_count_dvd[OF assms(1,2)] by simp
  have "owns n wsize rk row \<longleftrightarrow> r * k * n \<le> row * n \<and> (row + 1) * n \<le> r * k * n + k * n"
    unfolding owns_def f c
    by (simp only: of_nat_add[symmetric] of_nat_le_iff)
  also have "r * k * n + k * n = (r + 1) * k * n" by (simp add: algebra_simps)
  also have "r * k * n \<le> row * n \<and> (row + 1) * n \<le> (r + 1) * k * n
     \<longleftrightarrow> r * k \<le> row \<and> row + 1 \<le> (r + 1) * k"
    using npos by (simp only: mult_le_cancel2) simp
  also have "\<dots> \<longleftrightarrow> row div k = r" by (rule row_in_block[OF assms(5)])
  also have "\<dots> \<longleftrightarrow> rk = int (row div k)" using r by auto
  finally show ?thesis .
qed

text \<open>
  Claim C1, as the code has it. The code splits a square grid of \<open>n\<close> rows with the integer
  quotients \<open>proc*n/size\<close> and \<open>n*n/size\<close> and has no treatment of a remainder. When the
  worker count divides \<open>n\<close>, every row \<open>row < n\<close> lies in the interior of exactly one rank,
  the rank \<open>row div (n div size)\<close>: the interiors are pairwise disjoint and cover all rows.
\<close>

theorem partition_dvd:
  assumes "1 \<le> wsize" "nat wsize dvd n" "row < n"
  shows "owners n wsize row = [int (row div (n div nat wsize))]"
proof -
  define k where "k = n div nat wsize"
  have n: "n = k * nat wsize" using assms(2) by (simp add: k_def)
  have kpos: "0 < k" using assms(3) n by (cases k) auto
  have "row div k < nat wsize"
    using assms(3) n kpos by (simp add: div_less_iff_less_mult mult.commute)
  then have up: "int (row div k) \<le> wsize - 1" by linarith
  show ?thesis
    unfolding owners_def k_def[symmetric]
    by (rule filter_upto_only) (use up owns_dvd[OF assms(1) n _ _ kpos] in auto)
qed

theorem partition_dvd_witness:
  "(1::int) \<le> 2 \<and> nat 2 dvd (4::nat) \<and> (3::nat) < 4 \<and> owners 4 2 3 = [1]"
  using partition_dvd[of 2 4 3] by simp

text \<open>
  With 2 workers on a grid of 3 rows, no rank owns row 2: the interiors are the elements
  \<open>0..3\<close> and \<open>3..6\<close> of the 9.
\<close>

theorem partition_counterexample: "owners 3 2 2 = []"
  by (simp add: owners_def owns_def interior_first_def interior_count_def local_origin_def
      gather_part_def expected_size_def slice_first_def upto.simps)

subsection \<open>The counts of the initial scatter\<close>

lemma sends_count:
  assumes "1 \<le> wsize" "c \<in> set (initial_communication_calls n wsize 0)"
  shows "count c = expected_size n wsize (dest c)"
  using assms by (auto simp: initial_communication_calls_def expected_size_def Let_def)

lemma sends_to_rank:
  assumes "1 \<le> r" "r < wsize"
  shows "filter (\<lambda>c. dest c = r) (initial_communication_calls n wsize 0) =
           [MPI_Send (slice_first n wsize r) (expected_size n wsize r) r]"
proof (cases "r = wsize - 1")
  case True
  have "filter (\<lambda>c. dest c = r) (map (\<lambda>proc. MPI_Send (slice_first n wsize proc) (expected_size n wsize 0 + n) proc) [1..wsize - 2]) = []"
    using True by (auto simp: filter_empty_conv)
  then show ?thesis using True assms
    by (simp add: initial_communication_calls_def expected_size_def Let_def)
next
  case False
  have "filter (\<lambda>proc. proc = r) [1..wsize - 2] = [r]"
    by (rule filter_upto_only) (use False assms in auto)
  then have "filter (\<lambda>c. dest c = r) (map (\<lambda>proc. MPI_Send (slice_first n wsize proc) (expected_size n wsize 0 + n) proc) [1..wsize - 2])
     = [MPI_Send (slice_first n wsize r) (expected_size n wsize 0 + n) r]"
    by (simp add: filter_map comp_def)
  then show ?thesis using False assms
    by (simp add: initial_communication_calls_def expected_size_def Let_def)
qed

text \<open>
  Claim C2. Every message that rank 0 sends in \<open>initial_communication\<close> has as many
  elements as the \<open>expected_size\<close> that its destination computes for itself, and every
  rank other than 0 is sent exactly one message, whose count is the count of the one
  receive that this rank posts.
\<close>

theorem scatter_counts_agree:
  assumes "1 \<le> wsize"
  shows "(\<forall>c \<in> set (initial_communication_calls n wsize 0).
            count c = expected_size n wsize (dest c)) \<and>
         (\<forall>r. 1 \<le> r \<and> r < wsize \<longrightarrow>
            filter (\<lambda>c. dest c = r) (initial_communication_calls n wsize 0) =
              [MPI_Send (slice_first n wsize r) (expected_size n wsize r) r] \<and>
            initial_communication_calls n wsize r = [MPI_Recv 0 (expected_size n wsize r) 0])"
  using sends_count[OF assms] sends_to_rank
  by (auto simp: initial_communication_calls_def Let_def)

theorem scatter_counts_agree_witness:
  "initial_communication_calls 9 3 0 = [MPI_Send 45 36 2, MPI_Send 18 45 1] \<and>
   expected_size 9 3 2 = 36 \<and> expected_size 9 3 1 = 45 \<and>
   initial_communication_calls 9 3 1 = [MPI_Recv 0 45 0] \<and>
   initial_communication_calls 9 3 2 = [MPI_Recv 0 36 0]"
proof -
  have calls: "initial_communication_calls 9 3 0 = [MPI_Send 45 36 2, MPI_Send 18 45 1]"
    by (simp add: initial_communication_calls_def expected_size_def slice_first_def upto.simps Let_def)
  have h: "(1::int) \<le> 3" by simp
  from scatter_counts_agree[OF h, of 9] show ?thesis
    unfolding calls by auto
qed

subsection \<open>The halo exchange of a group\<close>

lemma region_length: "region xs off cnt = Some ys \<Longrightarrow> length ys = cnt"
  by (auto simp: region_def split: if_splits)

lemma store_length: "store xs off ys = Some zs \<Longrightarrow> length zs = length xs"
  by (auto simp: store_def split: if_splits)

lemma region_Some:
  "0 \<le> off \<Longrightarrow> nat off + cnt \<le> length xs \<Longrightarrow> \<exists>ys. region xs off cnt = Some ys"
  by (simp add: region_def)

lemma store_Some:
  "0 \<le> off \<Longrightarrow> nat off + length ys \<le> length xs \<Longrightarrow> \<exists>zs. store xs off ys = Some zs"
  by (simp add: store_def)

lemma sendrecv_pair_length:
  assumes "sendrecv_pair c c' xs ys = Inr (xs', ys')"
  shows "length xs' = length xs \<and> length ys' = length ys"
  using assms
  by (auto simp: sendrecv_pair_def split: option.splits if_splits dest: store_length)

lemma sendrecv_pair_ok:
  assumes "0 \<le> sendbuf c" "nat (sendbuf c) + sendcount c \<le> length xs"
    and "0 \<le> recvbuf c" "nat (recvbuf c) + recvcount c \<le> length xs"
    and "0 \<le> sendbuf c'" "nat (sendbuf c') + sendcount c' \<le> length ys"
    and "0 \<le> recvbuf c'" "nat (recvbuf c') + recvcount c' \<le> length ys"
    and "sendcount c = recvcount c'" "sendcount c' = recvcount c"
  shows "\<exists>xs' ys'. sendrecv_pair c c' xs ys = Inr (xs', ys')"
proof -
  obtain out where out: "region xs (sendbuf c) (sendcount c) = Some out"
    using region_Some[OF assms(1,2)] by blast
  obtain inc where inc: "region ys (sendbuf c') (sendcount c') = Some inc"
    using region_Some[OF assms(5,6)] by blast
  have lo: "length out = sendcount c" and li: "length inc = sendcount c'"
    using out inc by (auto dest: region_length)
  obtain xs' where xs': "store xs (recvbuf c) inc = Some xs'"
    using store_Some[of "recvbuf c" inc xs] assms li by auto
  obtain ys' where ys': "store ys (recvbuf c') out = Some ys'"
    using store_Some[of "recvbuf c'" out ys] assms lo by auto
  show ?thesis
    using out inc xs' ys' lo li assms(9,10) by (simp add: sendrecv_pair_def)
qed

lemma forget_mesh_update [simp]: "forget_mesh (s\<lparr>mesh := m\<rparr>) = forget_mesh s"
  by (simp add: forget_mesh_def)

lemma skeleton_update:
  "forget_mesh s = forget_mesh (fst (w ! r)) \<Longrightarrow> skeleton (w[r := (s, q)]) = skeleton w"
  by (cases "r < length w")
     (auto simp: skeleton_def list_eq_iff_nth_eq nth_list_update list_update_beyond)

lemma length_skeleton: "length (skeleton w) = length w"
  by (simp add: skeleton_def)

lemma do_sendrecv_cases:
  assumes "do_sendrecv r c w = Inr w'"
  obtains xs' ys' c' cs' where
    "0 \<le> dest c" "nat (dest c) < length w" "is_sendrecv_with c (dest c)"
    "snd (w ! nat (dest c)) = c' # cs'" "is_sendrecv_with c' (int r)"
    "sendrecv_pair c c' (mesh (fst (w ! r))) (mesh (fst (w ! nat (dest c)))) = Inr (xs', ys')"
    "w' = w[r := ((fst (w ! r))\<lparr>mesh := xs'\<rparr>, snd (w ! r)),
            nat (dest c) := ((fst (w ! nat (dest c)))\<lparr>mesh := ys'\<rparr>, cs')]"
proof -
  from assms have ab: "\<not> (dest c < 0 \<or> int (length w) \<le> dest c)"
    and m: "is_sendrecv_with c (dest c)"
    by (auto simp: do_sendrecv_def Let_def split: if_splits)
  from ab have a: "0 \<le> dest c" and b: "nat (dest c) < length w" by auto
  from assms ab m obtain c' cs' where q: "snd (w ! nat (dest c)) = c' # cs'"
    by (cases "snd (w ! nat (dest c))") (auto simp: do_sendrecv_def Let_def)
  from assms ab m q have m': "is_sendrecv_with c' (int r)"
    by (auto simp: do_sendrecv_def Let_def split: if_splits)
  from assms ab m q m' obtain xs' ys' where
    p: "sendrecv_pair c c' (mesh (fst (w ! r))) (mesh (fst (w ! nat (dest c)))) = Inr (xs', ys')"
    by (cases "sendrecv_pair c c' (mesh (fst (w ! r))) (mesh (fst (w ! nat (dest c))))")
       (auto simp: do_sendrecv_def Let_def)
  from assms ab m q m' p have
    "w' = w[r := ((fst (w ! r))\<lparr>mesh := xs'\<rparr>, snd (w ! r)),
            nat (dest c) := ((fst (w ! nat (dest c)))\<lparr>mesh := ys'\<rparr>, cs')]"
    by (simp add: do_sendrecv_def Let_def)
  with a b m q m' p show ?thesis by (rule that)
qed

lemma do_sendrecv_forget:
  assumes "do_sendrecv r c w = Inr w'"
  shows "skeleton w' = skeleton w"
proof -
  from assms obtain xs' ys' cs' where b: "nat (dest c) < length w"
    and w': "w' = w[r := ((fst (w ! r))\<lparr>mesh := xs'\<rparr>, snd (w ! r)),
            nat (dest c) := ((fst (w ! nat (dest c)))\<lparr>mesh := ys'\<rparr>, cs')]"
    by (rule do_sendrecv_cases)
  let ?w1 = "w[r := ((fst (w ! r))\<lparr>mesh := xs'\<rparr>, snd (w ! r))]"
  have 1: "skeleton ?w1 = skeleton w"
    by (simp add: skeleton_update)
  have "forget_mesh (fst (?w1 ! nat (dest c))) = forget_mesh (fst (w ! nat (dest c)))"
    using b by (cases "r < length w") (auto simp: nth_list_update)
  then have "skeleton w' = skeleton ?w1"
    unfolding w' by (intro skeleton_update) simp
  with 1 show ?thesis by simp
qed

lemma serve_forget: "serve r cs w = Inr w' \<Longrightarrow> skeleton w' = skeleton w"
proof (induction cs arbitrary: w)
  case Nil
  then show ?case by simp
next
  case (Cons c cs)
  then show ?case
    by (auto split: sum.splits dest!: do_sendrecv_forget)
qed

lemma serve_rank_forget:
  assumes "serve_rank r w = Inr w'"
  shows "skeleton w' = skeleton w"
  using serve_forget[OF assms[unfolded serve_rank_def]] by (simp add: skeleton_update)

lemma serve_all_forget: "serve_all rs w = Inr w' \<Longrightarrow> skeleton w' = skeleton w"
proof (induction rs arbitrary: w)
  case Nil
  then show ?case by simp
next
  case (Cons r rs)
  then show ?case
    by (auto split: sum.splits dest!: serve_rank_forget)
qed

lemma communicate_boundary_all_forget:
  assumes "communicate_boundary_all ws = Inr ws'"
  shows "map forget_mesh ws' = map forget_mesh ws"
proof -
  from assms obtain w where w: "serve_all [0..<length ws] (map (\<lambda>s. (s, communicate_boundary s)) ws) = Inr w"
    and ws': "ws' = map fst w"
    by (auto simp: communicate_boundary_all_def split: sum.splits)
  from serve_all_forget[OF w] show ?thesis
    by (simp add: ws' skeleton_def comp_def)
qed

text \<open>
  Three processes with one column: every halo slot receives the neighbour's boundary row.
\<close>

lemma halo_exchange_example:
  "map_sum id (map mesh)
     (communicate_boundary_all
        [Solver_init 0 3 [10, 0] 1 k0, Solver_init 1 3 [0, 20, 0] 1 k1,
         Solver_init 2 3 [0, 30 :: int] 1 k2])
   = Inr [[10, 20], [10, 20, 30], [20, 30]]"
  by (simp add: communicate_boundary_all_def communicate_boundary_def serve_rank_def
      do_sendrecv_def sendrecv_pair_def is_sendrecv_with_def region_def store_def
      Solver_init_def Let_def upt_rec)

lemma halo_exchanged_example:
  "map (halo_exchanged 1 [[10, 0], [0, 20, 0], [0, 30 :: int]]) [0, 1, 2] =
     [[10, 20], [10, 20, 30], [20, 30]]"
  by (simp add: halo_exchanged_def)

lemma serve_rank_step:
  assumes lu: "lined_up n base" and sv: "served k base w" and k: "k < length base"
  shows "\<exists>w'. serve_rank k w = Inr w' \<and> served (Suc k) base w'"
proof -
  let ?N = "length base"
  have lw: "length w = ?N" using sv by (simp add: served_def)
  let ?w1 = "w[k := (fst (w ! k), [])]"
  have N2: "2 \<le> ?N" using lu by (simp add: lined_up_def)
  have st: "\<And>r. r < ?N \<Longrightarrow> rank (base ! r) = int r \<and> size_mpi (base ! r) = int ?N \<and>
        n_col (base ! r) = n \<and>
        send_offset_1 (base ! r) = int n \<and> recv_offset_1 (base ! r) = 0 \<and>
        send_offset_2 (base ! r) = int (length (mesh (base ! r))) - 2 * int n \<and>
        recv_offset_2 (base ! r) = int (length (mesh (base ! r))) - int n \<and>
        2 * n \<le> length (mesh (base ! r))"
    using lu by (simp add: lined_up_def)
  have svj: "\<And>j. j < ?N \<Longrightarrow> forget_mesh (fst (w ! j)) = forget_mesh (base ! j) \<and>
        length (mesh (fst (w ! j))) = length (mesh (base ! j)) \<and>
        snd (w ! j) = pending k base j"
    using sv by (simp add: served_def)
  show ?thesis
  proof (cases "Suc k = ?N")
    case True
    then have k0: "0 < k" using N2 by simp
    have "communicate_boundary (base ! k) =
       [MPI_Sendrecv (int n) n (int k - 1) 0 n (int k - 1)]"
      using st[OF k] True k0 by (auto simp: communicate_boundary_def)
    then have "snd (w ! k) = []"
      using svj[OF k] k0 by (simp add: pending_def)
    then have res: "serve_rank k w = Inr ?w1" by (simp add: serve_rank_def)
    have "served (Suc k) base ?w1"
      unfolding served_def
    proof (intro conjI allI impI)
      show "length ?w1 = ?N" using lw by simp
    next
      fix j assume j: "j < ?N"
      show "forget_mesh (fst (?w1 ! j)) = forget_mesh (base ! j)"
        using svj[OF j] lw k by (cases "j = k") simp_all
      show "length (mesh (fst (?w1 ! j))) = length (mesh (base ! j))"
        using svj[OF j] lw k by (cases "j = k") simp_all
      show "snd (?w1 ! j) = pending (Suc k) base j"
        using svj[OF j] lw k j True by (cases "j = k") (auto simp: pending_def)
    qed
    with res show ?thesis by blast
  next
    case False
    then have k1: "Suc k < ?N" using k by simp
    let ?lk = "length (mesh (base ! k))" and ?lp = "length (mesh (base ! Suc k))"
    let ?c = "MPI_Sendrecv (int ?lk - 2 * int n) n (int k + 1) (int ?lk - int n) n (int k + 1)"
    let ?c' = "MPI_Sendrecv (int n) n (int k) 0 n (int k)"
    have qk: "snd (w ! k) = [?c]"
    proof (cases "k = 0")
      case True
      then show ?thesis using svj[OF k] st[OF k]
        by (simp add: pending_def communicate_boundary_def)
    next
      case False
      then show ?thesis using svj[OF k] st[OF k] k1
        by (auto simp: pending_def communicate_boundary_def)
    qed
    define rest where "rest = tl (communicate_boundary (base ! Suc k))"
    have qp: "communicate_boundary (base ! Suc k) = ?c' # rest"
      using st[OF k1] by (simp add: communicate_boundary_def rest_def)
    have qp': "snd (?w1 ! Suc k) = ?c' # rest"
      using svj[OF k1] qp lw by (simp add: pending_def)
    have lens: "length (mesh (fst (?w1 ! k))) = ?lk" "length (mesh (fst (?w1 ! Suc k))) = ?lp"
      using svj[OF k] svj[OF k1] lw k by simp_all
    have bk: "2 * n \<le> ?lk" and bp: "2 * n \<le> ?lp" using st[OF k] st[OF k1] by simp_all
    have a1: "nat (int ?lk - 2 * int n) + n \<le> ?lk" "nat (int ?lk - int n) + n \<le> ?lk"
      using bk by linarith+
    have "\<exists>xs' ys'.
      sendrecv_pair ?c ?c' (mesh (fst (?w1 ! k))) (mesh (fst (?w1 ! Suc k))) = Inr (xs', ys')"
      by (rule sendrecv_pair_ok) (use lens a1 bk bp in simp_all)
    then obtain xs' ys' where pair:
      "sendrecv_pair ?c ?c' (mesh (fst (?w1 ! k))) (mesh (fst (?w1 ! Suc k))) = Inr (xs', ys')"
      by blast
    have plen: "length xs' = ?lk" "length ys' = ?lp"
      using sendrecv_pair_length[OF pair] lens by simp_all
    let ?w' = "?w1[k := ((fst (?w1 ! k))\<lparr>mesh := xs'\<rparr>, snd (?w1 ! k)),
                  Suc k := ((fst (?w1 ! Suc k))\<lparr>mesh := ys'\<rparr>, rest)]"
    have "do_sendrecv k ?c ?w1 = Inr ?w'"
      using k1 lw qp' pair
      by (simp add: do_sendrecv_def Let_def is_sendrecv_with_def nat_add_distrib)
    then have res: "serve_rank k w = Inr ?w'"
      by (simp add: serve_rank_def qk)
    have "served (Suc k) base ?w'"
      unfolding served_def
    proof (intro conjI allI impI)
      show "length ?w' = ?N" using lw by simp
    next
      fix j assume j: "j < ?N"
      consider "j = k" | "j = Suc k" | "j \<noteq> k" "j \<noteq> Suc k" by blast
      then show "forget_mesh (fst (?w' ! j)) = forget_mesh (base ! j)"
        using svj[OF j] lw k k1 by cases simp_all
      consider "j = k" | "j = Suc k" | "j \<noteq> k" "j \<noteq> Suc k" by blast
      then show "length (mesh (fst (?w' ! j))) = length (mesh (base ! j))"
        using svj[OF j] lw k k1 plen by cases simp_all
      consider "j = k" | "j = Suc k" | "j \<noteq> k" "j \<noteq> Suc k" by blast
      then show "snd (?w' ! j) = pending (Suc k) base j"
        using svj[OF j] lw k k1 qp by cases (auto simp: pending_def)
    qed
    with res show ?thesis by blast
  qed
qed

lemma serve_all_from:
  assumes lu: "lined_up n base"
  shows "served k base w \<Longrightarrow> k \<le> length base \<Longrightarrow>
     \<exists>w'. serve_all [k..<length base] w = Inr w' \<and> served (length base) base w'"
proof (induction "length base - k" arbitrary: k w)
  case 0
  then show ?case by simp
next
  case (Suc d)
  then have k: "k < length base" by simp
  obtain w1 where w1: "serve_rank k w = Inr w1" "served (Suc k) base w1"
    using serve_rank_step[OF lu Suc.prems(1) k] by blast
  have "\<exists>w'. serve_all [Suc k..<length base] w1 = Inr w' \<and> served (length base) base w'"
    using Suc.hyps(1)[of "Suc k" w1] Suc.hyps(2) w1(2) k by simp
  then show ?case using w1(1) k by (auto simp: upt_conv_Cons)
qed

lemma communicate_boundary_all_ok:
  assumes lu: "lined_up n ws"
  shows "\<exists>ws'. communicate_boundary_all ws = Inr ws' \<and>
           map forget_mesh ws' = map forget_mesh ws \<and>
           map (\<lambda>s. length (mesh s)) ws' = map (\<lambda>s. length (mesh s)) ws"
proof -
  let ?w0 = "map (\<lambda>s. (s, communicate_boundary s)) ws"
  have "served 0 ws ?w0" by (simp add: served_def pending_def)
  then obtain w' where w': "serve_all [0..<length ws] ?w0 = Inr w'" "served (length ws) ws w'"
    using serve_all_from[OF lu, of 0 ?w0] by auto
  have "communicate_boundary_all ws = Inr (map fst w')"
    by (simp add: communicate_boundary_all_def w'(1))
  moreover have "map forget_mesh (map fst w') = map forget_mesh ws"
    using w'(2) by (auto simp: served_def list_eq_iff_nth_eq)
  moreover have "map (\<lambda>s. length (mesh s)) (map fst w') = map (\<lambda>s. length (mesh s)) ws"
    using w'(2) by (auto simp: served_def list_eq_iff_nth_eq)
  ultimately show ?thesis by blast
qed

text \<open>The rows that the exchange delivers.\<close>

lemma sendrecv_pair_rows:
  assumes "2 * n \<le> length xs" "2 * n \<le> length ys"
  shows "sendrecv_pair
           (MPI_Sendrecv (int (length xs) - 2 * int n) n p (int (length xs) - int n) n p)
           (MPI_Sendrecv (int n) n q 0 n q) xs ys =
         Inr (take (length xs - n) xs @ take n (drop n ys),
              take n (drop (length xs - 2 * n) xs) @ drop n ys)"
proof -
  have a: "nat (int (length xs) - 2 * int n) = length xs - 2 * n"
    and b: "nat (int (length xs) - int n) = length xs - n"
    using assms by linarith+
  have r1: "region xs (int (length xs) - 2 * int n) n = Some (take n (drop (length xs - 2 * n) xs))"
    using assms by (simp add: region_def a)
  have r2: "region ys (int n) n = Some (take n (drop n ys))"
    using assms by (simp add: region_def)
  have s1: "store xs (int (length xs) - int n) (take n (drop n ys)) =
      Some (take (length xs - n) xs @ take n (drop n ys))"
    using assms by (simp add: store_def b min_absorb2)
  have s2: "store ys 0 (take n (drop (length xs - 2 * n) xs)) =
      Some (take n (drop (length xs - 2 * n) xs) @ drop n ys)"
    using assms by (simp add: store_def min_absorb2)
  show ?thesis
    using assms by (simp add: sendrecv_pair_def r1 r2 s1 s2)
qed

lemma drop_split_tail:
  assumes "2 * n \<le> length m"
  shows "drop n m = take (length m - 2 * n) (drop n m) @ drop (length m - n) m"
proof -
  have e: "length m - n = (length m - 2 * n) + n" using assms by simp
  have "drop (length m - n) m = drop (length m - 2 * n) (drop n m)"
    by (subst e) (simp only: drop_drop)
  then show ?thesis by (simp only: append_take_drop_id)
qed

lemma take_lead:
  assumes "length lead = n" "2 * n \<le> l"
  shows "take (l - n) (lead @ rest) = lead @ take (l - 2 * n) rest"
proof -
  have a: "n \<le> l - n" and b: "l - n - n = l - 2 * n" using assms(2) by simp_all
  have "take (l - n) (lead @ rest) = take (l - n) lead @ take (l - n - length lead) rest"
    by (rule take_append)
  also have "take (l - n) lead = lead" using assms(1) a by simp
  finally show ?thesis using assms(1) b by simp
qed

lemma length_passed_down:
  "\<forall>j \<le> k. 2 * n \<le> length (bs ! j) \<Longrightarrow> length (passed_down n bs k) = n"
proof (induction k)
  case 0
  then show ?case by simp
next
  case (Suc k)
  then have l: "length (passed_down n bs k) = n" and b: "2 * n \<le> length (bs ! Suc k)"
    by simp_all
  have "length (passed_down n bs k @ drop n (bs ! Suc k)) = length (bs ! Suc k)"
    using l b by simp
  then show ?case using b by simp
qed

lemma passed_down_row:
  assumes "\<forall>j \<le> k. 2 * n \<le> length (bs ! j)" and "k = 0 \<or> 3 * n \<le> length (bs ! k)"
  shows "passed_down n bs k = take n (drop (length (bs ! k) - 2 * n) (bs ! k))"
proof (cases k)
  case 0
  then show ?thesis by simp
next
  case (Suc k')
  then have l: "length (passed_down n bs k') = n"
    using assms(1) by (intro length_passed_down) simp
  have t: "3 * n \<le> length (bs ! Suc k')" using assms(2) Suc by simp
  have a: "n \<le> length (bs ! Suc k') - 2 * n"
    and b: "length (bs ! Suc k') - 2 * n - n + n = length (bs ! Suc k') - 2 * n"
    using t by simp_all
  have "drop (length (bs ! Suc k') - 2 * n) (passed_down n bs k' @ drop n (bs ! Suc k')) =
      drop (length (bs ! Suc k') - 2 * n) (passed_down n bs k') @
      drop (length (bs ! Suc k') - 2 * n - length (passed_down n bs k')) (drop n (bs ! Suc k'))"
    by (rule drop_append)
  also have "drop (length (bs ! Suc k') - 2 * n) (passed_down n bs k') = []"
    using l a by simp
  also have "drop (length (bs ! Suc k') - 2 * n - length (passed_down n bs k')) (drop n (bs ! Suc k')) =
      drop (length (bs ! Suc k') - 2 * n - n + n) (bs ! Suc k')"
    unfolding l by (rule drop_drop)
  finally show ?thesis unfolding b using Suc by simp
qed

lemma serve_rank_rows:
  assumes lu: "lined_up n base"
    and sv: "served k base w" and rw: "exchanged_below n k base w" and k: "k < length base"
  shows "\<exists>w'. serve_rank k w = Inr w' \<and> served (Suc k) base w' \<and>
           exchanged_below n (Suc k) base w'"
proof -
  let ?N = "length base"
  let ?bs = "map mesh base"
  from serve_rank_step[OF lu sv k] obtain w' where
    res: "serve_rank k w = Inr w'" and sv': "served (Suc k) base w'"
    by blast
  have lw: "length w = ?N" using sv by (simp add: served_def)
  let ?w1 = "w[k := (fst (w ! k), [])]"
  have N2: "2 \<le> ?N" using lu by (simp add: lined_up_def)
  have st: "\<And>r. r < ?N \<Longrightarrow> rank (base ! r) = int r \<and> size_mpi (base ! r) = int ?N \<and>
        n_col (base ! r) = n \<and>
        send_offset_1 (base ! r) = int n \<and> recv_offset_1 (base ! r) = 0 \<and>
        send_offset_2 (base ! r) = int (length (mesh (base ! r))) - 2 * int n \<and>
        recv_offset_2 (base ! r) = int (length (mesh (base ! r))) - int n \<and>
        2 * n \<le> length (mesh (base ! r))"
    using lu by (simp add: lined_up_def)
  have svj: "\<And>j. j < ?N \<Longrightarrow> forget_mesh (fst (w ! j)) = forget_mesh (base ! j) \<and>
        length (mesh (fst (w ! j))) = length (mesh (base ! j)) \<and>
        snd (w ! j) = pending k base j"
    using sv by (simp add: served_def)
  have rwj: "\<And>j. j < ?N \<Longrightarrow> mesh (fst (w ! j)) =
          (if j < k then halo_exchanged n ?bs j
           else if j = k \<and> 0 < k then passed_down n ?bs (k - 1) @ drop n (mesh (base ! k))
           else mesh (base ! j))"
    using rw by (simp add: exchanged_below_def)
  let ?lk = "length (mesh (base ! k))"
  let ?lead = "passed_down n ?bs (k - 1)"
  have bk: "2 * n \<le> ?lk" using st[OF k] by simp
  have two: "\<forall>j \<le> i. 2 * n \<le> length (?bs ! j)" if "i < ?N" for i
    using that st by simp
  have ll: "length ?lead = n" if "0 < k"
  proof -
    have "k - 1 < ?N" using k by simp
    from two[OF this] show ?thesis by (rule length_passed_down)
  qed
  have "exchanged_below n (Suc k) base w'"
  proof (cases "Suc k = ?N")
    case True
    then have k0: "0 < k" using N2 by simp
    have "communicate_boundary (base ! k) =
       [MPI_Sendrecv (int n) n (int k - 1) 0 n (int k - 1)]"
      using st[OF k] True k0 by (auto simp: communicate_boundary_def)
    then have "snd (w ! k) = []"
      using svj[OF k] k0 by (simp add: pending_def)
    then have "serve_rank k w = Inr ?w1" by (simp add: serve_rank_def)
    then have w': "w' = ?w1" using res by simp
    have tail: "drop n (mesh (base ! k)) =
        take (?lk - 2 * n) (drop n (mesh (base ! k))) @ drop (?lk - n) (mesh (base ! k))"
      using bk by (rule drop_split_tail)
    show ?thesis
      unfolding exchanged_below_def
    proof (intro allI impI)
      fix j assume j: "j < ?N"
      show "mesh (fst (w' ! j)) =
          (if j < Suc k then halo_exchanged n ?bs j
           else if j = Suc k \<and> 0 < Suc k then
             passed_down n ?bs (Suc k - 1) @ drop n (mesh (base ! Suc k))
           else mesh (base ! j))"
      proof (cases "j = k")
        case jk: True
        have "mesh (fst (w' ! j)) = ?lead @ drop n (mesh (base ! k))"
          using rwj[OF k] k0 lw k jk by (simp add: w')
        also have "\<dots> = halo_exchanged n ?bs k"
          using True k0 k tail by (simp add: halo_exchanged_def)
        finally show ?thesis using jk by simp
      next
        case False
        then have "j < k" using j True by simp
        then show ?thesis using rwj[OF j] lw k False by (simp add: w')
      qed
    qed
  next
    case False
    then have k1: "Suc k < ?N" using k by simp
    let ?lp = "length (mesh (base ! Suc k))"
    let ?c = "MPI_Sendrecv (int ?lk - 2 * int n) n (int k + 1) (int ?lk - int n) n (int k + 1)"
    let ?c' = "MPI_Sendrecv (int n) n (int k) 0 n (int k)"
    have qk: "snd (w ! k) = [?c]"
    proof (cases "k = 0")
      case True
      then show ?thesis using svj[OF k] st[OF k]
        by (simp add: pending_def communicate_boundary_def)
    next
      case False
      then show ?thesis using svj[OF k] st[OF k] k1
        by (auto simp: pending_def communicate_boundary_def)
    qed
    define rest where "rest = tl (communicate_boundary (base ! Suc k))"
    have qp: "communicate_boundary (base ! Suc k) = ?c' # rest"
      using st[OF k1] by (simp add: communicate_boundary_def rest_def)
    have qp': "snd (?w1 ! Suc k) = ?c' # rest"
      using svj[OF k1] qp lw by (simp add: pending_def)
    define cur where "cur = mesh (fst (w ! k))"
    define nxt where "nxt = mesh (base ! Suc k)"
    have mk: "mesh (fst (?w1 ! k)) = cur" using lw k by (simp add: cur_def)
    have mp: "mesh (fst (?w1 ! Suc k)) = nxt"
      using rwj[OF k1] lw k1 by (simp add: nxt_def)
    have lc: "length cur = ?lk" using svj[OF k] by (simp add: cur_def)
    have bp: "2 * n \<le> length nxt" using st[OF k1] by (simp add: nxt_def)
    have bc: "2 * n \<le> length cur" using bk lc by simp
    let ?xs' = "take (length cur - n) cur @ take n (drop n nxt)"
    let ?ys' = "take n (drop (length cur - 2 * n) cur) @ drop n nxt"
    have pair: "sendrecv_pair ?c ?c' cur nxt = Inr (?xs', ?ys')"
      using sendrecv_pair_rows[OF bc bp, of "int k + 1" "int k"] lc by simp
    let ?w' = "?w1[k := ((fst (?w1 ! k))\<lparr>mesh := ?xs'\<rparr>, snd (?w1 ! k)),
                  Suc k := ((fst (?w1 ! Suc k))\<lparr>mesh := ?ys'\<rparr>, rest)]"
    have "do_sendrecv k ?c ?w1 = Inr ?w'"
      using k1 lw qp' pair mk mp
      by (simp add: do_sendrecv_def Let_def is_sendrecv_with_def nat_add_distrib)
    then have "serve_rank k w = Inr ?w'"
      by (simp add: serve_rank_def qk)
    then have w': "w' = ?w'" using res by simp
    have curv: "cur = (if 0 < k then ?lead @ drop n (mesh (base ! k)) else mesh (base ! k))"
      using rwj[OF k] by (simp add: cur_def)
    have xs: "?xs' = halo_exchanged n ?bs k"
    proof (cases "0 < k")
      case True
      have "take (length cur - n) cur = ?lead @ take (?lk - 2 * n) (drop n (mesh (base ! k)))"
        using True curv take_lead[OF ll[OF True] bk] lc by (simp del: take_append)
      then show ?thesis using True k k1 by (simp add: halo_exchanged_def nxt_def)
    next
      case False
      then have c: "cur = mesh (base ! k)" using curv by simp
      have "?lk - n = n + (?lk - 2 * n)" using bk by simp
      then have "take (?lk - n) (mesh (base ! k)) =
          take n (mesh (base ! k)) @ take (?lk - 2 * n) (drop n (mesh (base ! k)))"
        by (simp only: take_add)
      then show ?thesis using False k k1 c by (simp add: halo_exchanged_def nxt_def)
    qed
    have ys: "take n (drop (length cur - 2 * n) cur) = passed_down n ?bs k"
    proof (cases k)
      case 0
      then show ?thesis using curv k by simp
    next
      case (Suc k')
      have "cur = passed_down n ?bs k' @ drop n (?bs ! Suc k')"
        using curv Suc k by simp
      moreover have "length cur = length (?bs ! Suc k')" using lc Suc k by simp
      ultimately show ?thesis unfolding Suc by (simp only: passed_down.simps)
    qed
    show ?thesis
      unfolding exchanged_below_def
    proof (intro allI impI)
      fix j assume j: "j < ?N"
      consider "j = k" | "j = Suc k" | "j < k" | "Suc k < j" by linarith
      then show "mesh (fst (w' ! j)) =
          (if j < Suc k then halo_exchanged n ?bs j
           else if j = Suc k \<and> 0 < Suc k then
             passed_down n ?bs (Suc k - 1) @ drop n (mesh (base ! Suc k))
           else mesh (base ! j))"
      proof cases
        case 1
        then show ?thesis using lw k k1 xs by (simp add: w')
      next
        case 2
        then show ?thesis using lw k k1 ys by (simp add: w' nxt_def)
      next
        case 3
        then show ?thesis using rwj[OF j] lw k k1 by (simp add: w')
      next
        case 4
        then show ?thesis using rwj[OF j] lw k k1 j by (simp add: w')
      qed
    qed
  qed
  with res sv' show ?thesis by blast
qed

lemma serve_all_rows:
  assumes lu: "lined_up n base"
  shows "served k base w \<Longrightarrow> exchanged_below n k base w \<Longrightarrow> k \<le> length base \<Longrightarrow>
     \<exists>w'. serve_all [k..<length base] w = Inr w' \<and> served (length base) base w' \<and>
       exchanged_below n (length base) base w'"
proof (induction "length base - k" arbitrary: k w)
  case 0
  then show ?case by simp
next
  case (Suc d)
  then have k: "k < length base" by simp
  obtain w1 where w1: "serve_rank k w = Inr w1" "served (Suc k) base w1"
    "exchanged_below n (Suc k) base w1"
    using serve_rank_rows[OF lu Suc.prems(1,2) k] by blast
  have "\<exists>w'. serve_all [Suc k..<length base] w1 = Inr w' \<and> served (length base) base w' \<and>
       exchanged_below n (length base) base w'"
    using Suc.hyps(1)[of "Suc k" w1] Suc.hyps(2) w1(2,3) k by simp
  then show ?case using w1(1) k by (auto simp: upt_conv_Cons)
qed

lemma communicate_boundary_all_rows:
  assumes lu: "lined_up n ws"
    and x: "communicate_boundary_all ws = Inr ws'"
  shows "\<forall>r < length ws. mesh (ws' ! r) = halo_exchanged n (map mesh ws) r"
proof -
  let ?w0 = "map (\<lambda>s. (s, communicate_boundary s)) ws"
  have "served 0 ws ?w0" by (simp add: served_def pending_def)
  moreover have "exchanged_below n 0 ws ?w0" by (simp add: exchanged_below_def)
  ultimately obtain w' where w': "serve_all [0..<length ws] ?w0 = Inr w'"
    "served (length ws) ws w'" "exchanged_below n (length ws) ws w'"
    using serve_all_rows[OF lu, of 0 ?w0] by auto
  have "ws' = map fst w'"
    using x by (simp add: communicate_boundary_all_def w'(1))
  moreover have "length w' = length ws" using w'(2) by (simp add: served_def)
  ultimately show ?thesis using w'(3) by (simp add: exchanged_below_def)
qed

subsection \<open>The final gather\<close>

lemma collect_map:
  "(\<And>x. x \<in> set xs \<Longrightarrow> f x = Inr (g x)) \<Longrightarrow> collect (map f xs) = Inr (map g xs)"
  by (induction xs) auto

lemma to_int_small: "0 \<le> v \<Longrightarrow> v < 2 ^ 31 \<Longrightarrow> to_int v = v"
  by (simp add: to_int_def)

lemma final_communication_send_ok:
  assumes "1 \<le> size_mpi s" "0 \<le> rank s" "rank s < size_mpi s"
    and len: "length (mesh s) = expected_size (n_col s) (size_mpi s) (rank s)"
    and small: "n_col s * n_col s div nat (size_mpi s) < 2 ^ 31"
  shows "final_communication_send s = Inr (gather_ready s, without_halo s)"
    and "length (without_halo s) = n_col s * n_col s div nat (size_mpi s)"
proof -
  let ?n = "n_col s" and ?q = "n_col s * n_col s div nat (size_mpi s)"
  have ti: "to_int (int ?q) = int ?q"
    using small by (intro to_int_small) (simp_all flip: of_nat_less_iff)
  consider (first) "rank s = 0" | (last) "rank s \<noteq> 0" "rank s = size_mpi s - 1"
    | (inner) "rank s \<noteq> 0" "rank s \<noteq> size_mpi s - 1" by blast
  then have "final_communication_send s = Inr (gather_ready s, without_halo s) \<and>
     length (without_halo s) = ?q"
  proof cases
    case first
    then have l: "length (mesh s) = ?q + ?n" using len by (simp add: expected_size_def)
    show ?thesis using first l ti
      by (simp add: final_communication_send_def gather_part_def region_def without_halo_def
          gather_ready_def Let_def)
  next
    case last
    then have l: "length (mesh s) = ?q + ?n" using len by (simp add: expected_size_def)
    show ?thesis using last l ti
      by (simp add: final_communication_send_def gather_part_def region_def without_halo_def
          gather_ready_def Let_def)
  next
    case inner
    then have l: "length (mesh s) = ?q + 2 * ?n" using len by (simp add: expected_size_def)
    show ?thesis using inner l ti
      by (simp add: final_communication_send_def gather_part_def region_def without_halo_def
          gather_ready_def Let_def min_def)
  qed
  then show "final_communication_send s = Inr (gather_ready s, without_halo s)"
    and "length (without_halo s) = ?q" by simp_all
qed

lemma final_communication_all_ok:
  assumes ne: "1 \<le> length ws" and ro: "in_rank_order n ws"
    and len: "\<forall>r < length ws. length (mesh (ws ! r)) = expected_size n (int (length ws)) (int r)"
    and fm: "length ws * (n * n div length ws) \<le> length final_mesh"
    and small: "n * n div length ws < 2 ^ 31"
  shows "final_communication_all K ws final_mesh =
           Inr (map (save_final K (concat (map without_halo ws) @
                       drop (length ws * (n * n div length ws)) final_mesh) \<circ> gather_ready) ws,
                concat (map without_halo ws) @
                  drop (length ws * (n * n div length ws)) final_mesh)"
    and "\<forall>s \<in> set ws. length (without_halo s) = n * n div length ws"
proof -
  let ?N = "length ws" and ?q = "n * n div length ws"
  have each: "final_communication_send s = Inr (gather_ready s, without_halo s) \<and>
      length (without_halo s) = ?q" if "s \<in> set ws" for s
  proof -
    from that obtain r where r: "r < ?N" "s = ws ! r" by (auto simp: in_set_conv_nth)
    have f: "rank s = int r" "size_mpi s = int ?N" "n_col s = n"
      using ro r by (simp_all add: in_rank_order_def)
    have l: "length (mesh s) = expected_size (n_col s) (size_mpi s) (rank s)"
      using len r f by simp
    have sm: "n_col s * n_col s div nat (size_mpi s) < 2 ^ 31"
      using small f by simp
    show ?thesis
      using final_communication_send_ok[of s, OF _ _ _ l sm] f r by simp
  qed
  then show lens: "\<forall>s \<in> set ws. length (without_halo s) = ?q" by simp
  have c: "collect (map final_communication_send ws) =
      Inr (map (\<lambda>s. (gather_ready s, without_halo s)) ws)"
    by (rule collect_map) (simp add: each)
  have hd: "length (snd (hd (map (\<lambda>s. (gather_ready s, without_halo s)) ws))) = ?q"
    using ne lens by (cases ws) simp_all
  have g: "MPI_Gather (map without_halo ws) ?q final_mesh =
      Inr (concat (map without_halo ws) @ drop (?N * ?q) final_mesh)"
    using lens fm by (simp add: MPI_Gather_def)
  show "final_communication_all K ws final_mesh =
           Inr (map (save_final K (concat (map without_halo ws) @
                       drop (?N * ?q) final_mesh) \<circ> gather_ready) ws,
                concat (map without_halo ws) @ drop (?N * ?q) final_mesh)"
    unfolding final_communication_all_def c
    by (simp add: hd comp_def g)
qed

subsection \<open>The calls of the halo exchange\<close>

text \<open>
  Claim C6. On a process constructed with rank \<open>r\<close> in a group of \<open>wsize\<close>, the halo exchange
  consists of combined send-receive calls only, each with one peer as destination and
  source. Rank 0 makes one call, with rank 1: it sends the row before its last row (its
  last interior row) and receives into its last row (the trailing halo slot). The last
  rank makes one call, with rank \<open>wsize - 2\<close>: it sends its second row (its first interior
  row) and receives into its first row (the leading halo slot). Every other rank makes
  two calls, first with rank \<open>r - 1\<close> and then with rank \<open>r + 1\<close>. Where rank 0 is also the
  last rank the first case applies, as in the source.
\<close>

theorem halo_exchange_calls:
  "communicate_boundary (Solver_init r wsize msh n m) =
     (if r = 0 then
        [MPI_Sendrecv (int (length msh) - 2 * int n) n 1 (int (length msh) - int n) n 1]
      else if r = wsize - 1 then
        [MPI_Sendrecv (int n) n (wsize - 2) 0 n (wsize - 2)]
      else
        [MPI_Sendrecv (int n) n (r - 1) 0 n (r - 1),
         MPI_Sendrecv (int (length msh) - 2 * int n) n (r + 1) (int (length msh) - int n) n (r + 1)])"
  by (simp add: communicate_boundary_def Solver_init_def)

theorem halo_exchange_calls_witness:
  "communicate_boundary
     (Solver_init 1 3 [1, 2, 3, 4, 5, 6, 7, 8, 9] 3 ([1, 2, 3, 4, 5, 6, 7, 8, 9 :: int], 3 :: nat, 0 :: nat))
   = [MPI_Sendrecv 3 3 0 0 3 0, MPI_Sendrecv 3 3 2 6 3 2]"
  using halo_exchange_calls[of 1 3 "[1, 2, 3, 4, 5, 6, 7, 8, 9]" 3 "([1, 2, 3, 4, 5, 6, 7, 8, 9 :: int], 3 :: nat, 0 :: nat)"]
  by simp

subsection \<open>What the gather assembles\<close>

lemma concat_chunks:
  "concat (map (\<lambda>r. take q (drop (r * q) xs)) [0..<N]) = take (N * q) xs"
proof (induction N)
  case 0
  then show ?case by simp
next
  case (Suc N)
  have "take (N * q) xs @ take q (drop (N * q) xs) = take (N * q + q) xs"
    by (simp add: take_add)
  then show ?case using Suc by (simp add: add.commute)
qed

lemma first_part:
  assumes "q + n \<le> length G" and "m = take (q + n) G"
  shows "take (length m - n) m = take q G"
proof -
  have "length m = q + n" using assms by simp
  then show ?thesis using assms(2) by (simp add: min_absorb1)
qed

lemma last_part:
  assumes "off + (q + n) \<le> length G" and "m = take (q + n) (drop off G)"
  shows "drop n m = take q (drop (off + n) G)"
  using assms by (simp add: drop_take add.commute)

lemma inner_part:
  assumes "off + (q + 2 * n) \<le> length G" and "m = take (q + 2 * n) (drop off G)"
  shows "drop n (take (length m - n) m) = take q (drop (off + n) G)"
proof -
  have "length m = q + 2 * n" using assms by simp
  then have "take (length m - n) m = take (q + n) (drop off G)"
    using assms(2) by (simp add: min_absorb1 add.commute)
  then show ?thesis by (simp add: drop_take add.commute)
qed

lemma scattered_dvd:
  assumes N2: "2 \<le> N" and n: "n = k * N" and k: "0 < k" and r: "r < N"
    and G: "length G = n * n"
  shows "\<exists>m. scattered G n (int N) (int r) = Some m \<and>
           length m = expected_size n (int N) (int r) \<and>
           without_halo (s\<lparr>rank := int r, size_mpi := int N, n_col := n, mesh := m\<rparr>) =
             take (k * n) (drop (r * (k * n)) G)"
proof -
  let ?q = "k * n"
  have q: "n * n div N = ?q" using n N2 by simp
  have nn: "n * n = N * ?q" using n by (simp add: algebra_simps)
  show ?thesis
  proof (cases "r = 0")
    case True
    have e: "expected_size n (int N) 0 = ?q + n" by (simp add: expected_size_def q)
    have "n \<le> ?q" using k by simp
    moreover have "2 * ?q \<le> N * ?q" using N2 by (rule mult_le_mono1)
    ultimately have le: "?q + n \<le> length G" using G nn by linarith
    have "scattered G n (int N) 0 = Some (take (?q + n) G)"
      using le by (simp add: scattered_def region_def e)
    moreover have "length (take (?q + n) G) = ?q + n" using le by simp
    moreover have "without_halo (s\<lparr>rank := 0, size_mpi := int N, n_col := n,
        mesh := take (?q + n) G\<rparr>) = take ?q G"
      using first_part[OF le refl] by (simp add: without_halo_def)
    ultimately show ?thesis using True e by simp
  next
    case False
    then have r1: "1 \<le> int r" "int r < int N" using r by simp_all
    have rk: "r * n div N = r * k" using n N2 by simp
    have rk1: "1 \<le> r * k" using False k by (simp add: Suc_le_eq)
    define off where "off = (r * k - 1) * n"
    have sf: "slice_first n (int N) (int r) = int off"
      using rk1 by (simp add: slice_first_def rk off_def of_nat_diff)
    have on: "off + n = r * ?q"
    proof -
      have "off + n = (r * k - 1 + 1) * n" by (simp add: off_def add_mult_distrib)
      also have "\<dots> = r * k * n" using rk1 by simp
      finally show ?thesis by (simp add: mult.assoc)
    qed
    have fl: "filter (\<lambda>c. dest c = int r) (initial_communication_calls n (int N) 0) =
        [MPI_Send (int off) (expected_size n (int N) (int r)) (int r)]"
      using sends_to_rank[OF r1, of n] sf by simp
    show ?thesis
    proof (cases "Suc r = N")
      case True
      then have e: "expected_size n (int N) (int r) = ?q + n"
        by (auto simp: expected_size_def q)
      have "N * ?q = r * ?q + ?q" using True by (metis mult_Suc add.commute)
      then have "off + n + ?q = N * ?q" using on by simp
      then have le: "off + (?q + n) \<le> length G" using G nn by simp
      have "scattered G n (int N) (int r) = Some (take (?q + n) (drop off G))"
        using le False by (simp add: scattered_def region_def e fl)
      moreover have "length (take (?q + n) (drop off G)) = ?q + n" using le by simp
      moreover have "without_halo (s\<lparr>rank := int r, size_mpi := int N, n_col := n,
          mesh := take (?q + n) (drop off G)\<rparr>) = take ?q (drop (r * ?q) G)"
        using False True last_part[OF le refl] on by (auto simp: without_halo_def)
      ultimately show ?thesis using e by simp
    next
      case nl: False
      then have r2: "r + 2 \<le> N" using r by simp
      have e: "expected_size n (int N) (int r) = ?q + 2 * n"
        using False nl by (auto simp: expected_size_def q)
      have "(r + 2) * ?q \<le> N * ?q" using r2 by (rule mult_le_mono1)
      moreover have "(r + 2) * ?q = r * ?q + ?q + ?q" by (simp add: add_mult_distrib)
      moreover have "n \<le> ?q" using k by simp
      ultimately have "off + n + ?q + n \<le> N * ?q" using on by linarith
      then have le: "off + (?q + 2 * n) \<le> length G" using G nn by simp
      have "scattered G n (int N) (int r) = Some (take (?q + 2 * n) (drop off G))"
        using le False by (simp add: scattered_def region_def e fl)
      moreover have "length (take (?q + 2 * n) (drop off G)) = ?q + 2 * n" using le by simp
      moreover have "without_halo (s\<lparr>rank := int r, size_mpi := int N, n_col := n,
          mesh := take (?q + 2 * n) (drop off G)\<rparr>) = take ?q (drop (r * ?q) G)"
        using False nl inner_part[OF le refl] on by (auto simp: without_halo_def)
      ultimately show ?thesis using e by simp
    qed
  qed
qed


lemma gather_after_scatter:
  assumes N2: "2 \<le> length ws" and dv: "length ws dvd n" and n0: "0 < n"
    and G: "length G = n * n" and ro: "in_rank_order n ws"
    and sc: "\<forall>r < length ws. scattered G n (int (length ws)) (int r) = Some (mesh (ws ! r))"
    and fm: "length final_mesh = n * n"
    and small: "n * n div length ws < 2 ^ 31"
  shows "\<exists>ws'. final_communication_all K ws final_mesh = Inr (ws', G)"
proof -
  let ?N = "length ws"
  define k where "k = n div ?N"
  have n: "n = k * ?N" using dv by (simp add: k_def)
  have k: "0 < k" using n0 n by (cases k) auto
  let ?q = "k * n"
  have q: "n * n div ?N = ?q" using n N2 by simp
  have nn: "?N * ?q = n * n" using n by (simp add: algebra_simps)
  have each: "length (mesh (ws ! r)) = expected_size n (int ?N) (int r) \<and>
      without_halo (ws ! r) = take ?q (drop (r * ?q) G)" if r: "r < ?N" for r
  proof -
    have f: "rank (ws ! r) = int r" "size_mpi (ws ! r) = int ?N" "n_col (ws ! r) = n"
      using ro r by (simp_all add: in_rank_order_def)
    from scattered_dvd[OF N2 n k r G, of "ws ! r"] sc r
    have "length (mesh (ws ! r)) = expected_size n (int ?N) (int r) \<and>
      without_halo ((ws ! r)\<lparr>rank := int r, size_mpi := int ?N, n_col := n,
        mesh := mesh (ws ! r)\<rparr>) = take ?q (drop (r * ?q) G)"
      by auto
    moreover have "(ws ! r)\<lparr>rank := int r, size_mpi := int ?N, n_col := n,
        mesh := mesh (ws ! r)\<rparr> = ws ! r"
      using f by (cases "ws ! r") simp
    ultimately show ?thesis by simp
  qed
  have a1: "1 \<le> ?N" using N2 by simp
  have a3: "\<forall>r < ?N. length (mesh (ws ! r)) = expected_size n (int ?N) (int r)"
    using each by simp
  have nq: "?N * (n * n div ?N) = n * n" unfolding q by (rule nn)
  have a4: "?N * (n * n div ?N) \<le> length final_mesh" unfolding nq fm by simp
  have "map without_halo ws = map (\<lambda>r. take ?q (drop (r * ?q) G)) [0..<?N]"
    by (rule nth_equalityI) (simp_all add: each)
  then have "concat (map without_halo ws) = take (?N * ?q) G"
    by (simp only: concat_chunks)
  then have c: "concat (map without_halo ws) = G" using G nn by simp
  have "drop (?N * (n * n div ?N)) final_mesh = []" unfolding nq using fm by simp
  with final_communication_all_ok(1)[OF a1 ro a3 a4 small, of K] c show ?thesis by simp
qed

lemma scattered_length:
  assumes "r < N" and "scattered G n (int N) (int r) = Some m"
  shows "length m = expected_size n (int N) (int r)"
proof (cases "r = 0")
  case True
  then show ?thesis using assms(2) by (auto simp: scattered_def dest: region_length)
next
  case False
  then have r1: "1 \<le> int r" "int r < int N" using assms(1) by simp_all
  show ?thesis
    using assms(2) False sends_to_rank[OF r1, of n]
    by (auto simp: scattered_def dest: region_length)
qed

lemma gather_round_trip:
  assumes N1: "1 \<le> length ws" and dv: "length ws dvd n"
    and G: "length G = n * n" and ro: "in_rank_order n ws"
    and sc: "\<forall>r < length ws. scattered G n (int (length ws)) (int r) = Some (mesh (ws ! r))"
    and fm: "length final_mesh = n * n"
    and small: "n * n div length ws < 2 ^ 31"
  shows "\<exists>ws'. final_communication_all K ws final_mesh = Inr (ws', G)"
proof (cases "n = 0")
  case True
  have a3: "\<forall>r < length ws. length (mesh (ws ! r)) = expected_size n (int (length ws)) (int r)"
    using sc by (auto intro: scattered_length)
  have a4: "length ws * (n * n div length ws) \<le> length final_mesh" using True by simp
  note fc = final_communication_all_ok(1)[OF N1 ro a3 a4 small, of K]
    final_communication_all_ok(2)[OF N1 ro a3 a4 small]
  have "\<forall>s \<in> set ws. without_halo s = []" using fc(2) True by simp
  then have "concat (map without_halo ws) = []" by simp
  moreover have "G = []" "final_mesh = []" using G fm True by simp_all
  ultimately show ?thesis using fc(1) by simp
next
  case False
  then have n0: "0 < n" by simp
  have N2: "2 \<le> length ws"
  proof (rule ccontr)
    assume "\<not> 2 \<le> length ws"
    then have l1: "length ws = 1" using N1 by simp
    then have "scattered G n 1 0 = Some (mesh (ws ! 0))" using sc by simp
    then have "n * n + n \<le> length G"
      by (auto simp: scattered_def region_def expected_size_def split: if_splits)
    with G n0 show False by simp
  qed
  show ?thesis by (rule gather_after_scatter[OF N2 dv n0 G ro sc fm small])
qed

text \<open>
  Claim C7, as the code has it. Take a group whose local buffers have the sizes of the
  scatter, with contributions of \<open>n * n div size\<close> elements, a count that fits the \<open>int\<close>
  parameter of \<open>MPI_Gather\<close>. Every process hands to the gather its buffer without its halo
  rows (\<open>without_halo\<close>: rank 0 all but its trailing halo row, the last rank all but its
  leading halo row, an interior rank all but both), all contributions have
  \<open>n * n div size\<close> elements, and the root's vector receives the contributions one after
  the other in rank order. Where moreover the worker count divides \<open>n\<close>, and the buffers
  hold what the scatter puts into them from a grid \<open>G\<close> of \<open>n\<close> rows, the gathered grid is
  \<open>G\<close> itself: no row twice, none missing.
\<close>

theorem gather_assembles_interiors:
  assumes "1 \<le> length ws" and "in_rank_order n ws"
    and "\<forall>r < length ws. length (mesh (ws ! r)) = expected_size n (int (length ws)) (int r)"
    and "length ws * (n * n div length ws) \<le> length final_mesh"
    and "n * n div length ws < 2 ^ 31"
  shows "collect (map final_communication_send ws) =
           Inr (map (\<lambda>s. (gather_ready s, without_halo s)) ws) \<and>
         (\<forall>s \<in> set ws. length (without_halo s) = n * n div length ws) \<and>
         (\<exists>ws'. final_communication_all K ws final_mesh =
            Inr (ws', concat (map without_halo ws) @
                        drop (length ws * (n * n div length ws)) final_mesh)) \<and>
         (length ws dvd n \<and> length G = n * n \<and> length final_mesh = n * n \<and>
          (\<forall>r < length ws. scattered G n (int (length ws)) (int r) = Some (mesh (ws ! r))) \<longrightarrow>
          (\<exists>ws'. final_communication_all K ws final_mesh = Inr (ws', G)))"
proof -
  have each: "final_communication_send s = Inr (gather_ready s, without_halo s)"
    if "s \<in> set ws" for s
  proof -
    from that obtain r where r: "r < length ws" "s = ws ! r" by (auto simp: in_set_conv_nth)
    have f: "rank s = int r" "size_mpi s = int (length ws)" "n_col s = n"
      using assms(2) r by (simp_all add: in_rank_order_def)
    have l: "length (mesh s) = expected_size (n_col s) (size_mpi s) (rank s)"
      using assms(3) r f by simp
    have sm: "n_col s * n_col s div nat (size_mpi s) < 2 ^ 31"
      using assms(5) f by simp
    show ?thesis
      using final_communication_send_ok(1)[of s, OF _ _ _ l sm] f r by simp
  qed
  have "collect (map final_communication_send ws) =
      Inr (map (\<lambda>s. (gather_ready s, without_halo s)) ws)"
    by (rule collect_map) (simp add: each)
  moreover have "\<exists>ws'. final_communication_all K ws final_mesh = Inr (ws', G)"
    if "length ws dvd n" "length G = n * n" "length final_mesh = n * n"
      "\<forall>r < length ws. scattered G n (int (length ws)) (int r) = Some (mesh (ws ! r))"
    using gather_round_trip[OF assms(1) that(1,2) assms(2) that(4,3) assms(5)] .
  ultimately show ?thesis
    using final_communication_all_ok(1)[OF assms, of K] final_communication_all_ok(2)[OF assms]
    by simp
qed

theorem gather_assembles_interiors_witness:
  "\<exists>ws'. final_communication_all (sample_kernel (\<lambda>xs k. 0))
     [Solver_init 0 2 [1, 2, 3, 4] 2 ([1, 2, 3, 4], 2, 0),
      Solver_init 1 2 [1, 2, 3, 4] 2 ([1, 2, 3, 4], 2, 0)] [0, 0, 0, 0] = Inr (ws', [1, 2, 3, 4])"
proof -
  let ?ws = "[Solver_init 0 2 [1, 2, 3, 4] 2 ([1, 2, 3, 4], 2, 0),
      Solver_init 1 2 [1, 2, 3, 4] 2 ([1, 2, 3, 4], 2, 0)] :: (int list \<times> nat \<times> nat, int) Solver list"
  have l2: "length ?ws = 2" by simp
  have a: "1 \<le> length ?ws" by simp
  have b: "in_rank_order 2 ?ws"
    by (simp add: in_rank_order_def Solver_init_def less_Suc_eq)
  have c: "\<forall>r < length ?ws. length (mesh (?ws ! r)) = expected_size 2 (int (length ?ws)) (int r)"
    by (simp add: Solver_init_def expected_size_def less_Suc_eq)
  have d: "length ?ws * (2 * 2 div length ?ws) \<le> length [0, 0, 0, 0 :: int]"
    unfolding l2 by simp
  have f: "2 * 2 div length ?ws < 2 ^ 31"
    unfolding l2 by simp
  have e: "\<forall>r < length ?ws.
      scattered [1, 2, 3, 4 :: int] 2 (int (length ?ws)) (int r) = Some (mesh (?ws ! r))"
    unfolding l2
    by (auto simp: scattered_def region_def expected_size_def initial_communication_calls_def
        slice_first_def Solver_init_def Let_def upto.simps dest!: less_2_cases)
  from gather_assembles_interiors[OF a b c d f, of "sample_kernel (\<lambda>xs k. 0)" "[1, 2, 3, 4]"] e
  show ?thesis unfolding l2 by simp
qed

text \<open>
  Two workers on a grid of 3 rows of 3 columns, whose samples are numbered from 0 to 8.
  The scatter gives both workers the elements 0 to 6. Rank 0 contributes the elements 0
  to 3 and rank 1 the elements 3 to 6: the gathered vector holds element 3 twice, the
  elements 7 and 8 are missing, and its last element is what the vector held before (-1).
  And two workers on a grid of 65536 rows and columns: the contribution of rank 0 has
  \<open>2 ^ 31\<close> elements, a count that reaches the library as a negative \<open>int\<close>.
\<close>

theorem gather_counterexample:
  "scattered [0, 1, 2, 3, 4, 5, 6, 7, 8 :: int] 3 2 0 = Some [0, 1, 2, 3, 4, 5, 6] \<and>
   scattered [0, 1, 2, 3, 4, 5, 6, 7, 8 :: int] 3 2 1 = Some [0, 1, 2, 3, 4, 5, 6] \<and>
   map without_halo
     [Solver_init 0 2 [0, 1, 2, 3, 4, 5, 6 :: int] 3 ([0, 1, 2, 3, 4, 5, 6 :: int], 3 :: nat, 0 :: nat),
      Solver_init 1 2 [0, 1, 2, 3, 4, 5, 6] 3 ([0, 1, 2, 3, 4, 5, 6], 3, 0)]
   = [[0, 1, 2, 3], [3, 4, 5, 6]] \<and>
   map_sum id snd
     (final_communication_all (sample_kernel (\<lambda>xs k. 0))
        [Solver_init 0 2 [0, 1, 2, 3, 4, 5, 6] 3 ([0, 1, 2, 3, 4, 5, 6], 3, 0),
         Solver_init 1 2 [0, 1, 2, 3, 4, 5, 6] 3 ([0, 1, 2, 3, 4, 5, 6], 3, 0)]
        [-1, -1, -1, -1, -1, -1, -1, -1, -1])
   = Inr [0, 1, 2, 3, 3, 4, 5, 6, -1] \<and>
   expected_size 65536 2 0 = 2 ^ 31 + 65536 \<and>
   map_sum id snd
     (final_communication_send
        (Solver_init 0 2 (replicate (2 ^ 31 + 65536) (0 :: int)) 65536
           (replicate (2 ^ 31 + 65536) (0 :: int), 65536 :: nat, 0 :: nat)))
   = Inl Negative_count"
  by (simp add: scattered_def region_def expected_size_def initial_communication_calls_def
      slice_first_def Solver_init_def Let_def upto.simps without_halo_def
      final_communication_all_def final_communication_send_def gather_part_def to_int_def
      MPI_Gather_def)

subsection \<open>The sequential and the thread-parallel loop\<close>

lemma swept_step:
  assumes "1 \<le> j"
  shows "swept sweep (s\<lparr>mesh_obj := sweep (mesh_obj s), exit := False, iter := iter s + 1,
            trace := trace s @ [Update, Check False], console := console s\<rparr>) j
         = swept sweep s (Suc j)"
proof -
  obtain j' where j: "j = Suc j'" using assms by (cases j) auto
  show ?thesis
    by (simp add: swept_def j funpow_swap1 replicate_app_Cons_same)
qed

lemma local_loop_runs:
  assumes "iter s \<le> n_max c - 1"
  shows "\<exists>j. 1 \<le> j \<and> local_loop K c sweep s = Some (swept sweep s j) \<and>
           iter s + int j - 1 \<le> n_max c - 1 \<and>
           (\<forall>j'. 1 \<le> j' \<and> j' < j \<longrightarrow> \<not> get_error K ((sweep ^^ j') (mesh_obj s)) < tolerance c) \<and>
           (get_error K ((sweep ^^ j) (mesh_obj s)) < tolerance c \<or>
            iter s + int j - 1 = n_max c - 1)"
  using assms
proof (induction "nat (n_max c - 1 - iter s)" arbitrary: s)
  case 0
  then have e: "iter s = n_max c - 1" by simp
  have "local_loop K c sweep s = Some (swept sweep s 1)"
    by (subst local_loop.simps) (simp add: local_pass_def Let_def e swept_def)
  then show ?case using e by (intro exI[of _ 1]) simp
next
  case (Suc d)
  let ?e = "get_error K (sweep (mesh_obj s)) < tolerance c"
  show ?case
  proof (cases ?e)
    case True
    have "local_loop K c sweep s = Some (swept sweep s 1)"
      by (subst local_loop.simps) (simp add: local_pass_def Let_def True swept_def)
    then show ?thesis using True Suc.prems by (intro exI[of _ 1]) simp
  next
    case False
    have ne: "iter s \<noteq> n_max c - 1" using Suc.hyps(2) by simp
    let ?s1 = "s\<lparr>mesh_obj := sweep (mesh_obj s), exit := False, iter := iter s + 1,
            trace := trace s @ [Update, Check False], console := console s\<rparr>"
    have pass: "local_pass K c sweep s = ?s1"
      using False ne by (simp add: local_pass_def Let_def)
    have unf: "local_loop K c sweep s = local_loop K c sweep ?s1"
      by (subst local_loop.simps) (simp add: pass Let_def)
    have d: "d = nat (n_max c - 1 - iter ?s1)" using Suc.hyps(2) by simp
    have le: "iter ?s1 \<le> n_max c - 1" using Suc.prems ne by simp
    from Suc.hyps(1)[OF d le] obtain j where j: "1 \<le> j"
      "local_loop K c sweep ?s1 = Some (swept sweep ?s1 j)"
      "iter ?s1 + int j - 1 \<le> n_max c - 1"
      "\<forall>j'. 1 \<le> j' \<and> j' < j \<longrightarrow> \<not> get_error K ((sweep ^^ j') (mesh_obj ?s1)) < tolerance c"
      "get_error K ((sweep ^^ j) (mesh_obj ?s1)) < tolerance c \<or> iter ?s1 + int j - 1 = n_max c - 1"
      by blast
    have earlier: "\<not> get_error K ((sweep ^^ j') (mesh_obj s)) < tolerance c"
      if "1 \<le> j'" "j' < Suc j" for j'
    proof (cases "j' = 1")
      case True
      then show ?thesis using False by simp
    next
      case False
      define j'' where "j'' = j' - 1"
      have "j' = Suc j''" "1 \<le> j''" "j'' < j" using that False by (simp_all add: j''_def)
      then show ?thesis using j(4) by (simp add: funpow_swap1)
    qed
    show ?thesis
    proof (intro exI[of _ "Suc j"] conjI)
      show "local_loop K c sweep s = Some (swept sweep s (Suc j))"
        using unf j(2) swept_step[OF j(1), of sweep s] by simp
      show "iter s + int (Suc j) - 1 \<le> n_max c - 1" using j(3) by simp
      show "\<forall>j'. 1 \<le> j' \<and> j' < Suc j \<longrightarrow> \<not> get_error K ((sweep ^^ j') (mesh_obj s)) < tolerance c"
        using earlier by blast
      show "get_error K ((sweep ^^ Suc j) (mesh_obj s)) < tolerance c \<or>
            iter s + int (Suc j) - 1 = n_max c - 1"
        using j(5) by (simp add: funpow_swap1)
    qed simp
  qed
qed

subsection \<open>The rounds of the distributed loop\<close>

lemma forget_mesh_eqD: "forget_mesh a = forget_mesh b \<Longrightarrow> a = b\<lparr>mesh := mesh a\<rparr>"
  by (cases a, cases b) (simp add: forget_mesh_def)

lemma mpi_round_shape:
  assumes "mpi_round K c thread ws = Inr ws'"
  shows "length ws' = length ws \<and>
         (\<forall>r < length ws. ws' ! r =
            round_of K c thread (MPI_Allreduce_LAND (map (exit_local \<circ> local_update K c thread) ws))
              (mesh (ws' ! r)) (ws ! r))"
proof -
  let ?ex = "MPI_Allreduce_LAND (map (exit_local \<circ> local_update K c thread) ws)"
  let ?ws2 = "map (after_reduce K ?ex \<circ> local_update K c thread) ws"
  from assms obtain ws3 where x: "communicate_boundary_all ?ws2 = Inr ws3"
    and ws': "ws' = map (after_exchange K) ws3"
    by (auto simp: mpi_round_def Let_def comp_def split: sum.splits)
  have f: "map forget_mesh ws3 = map forget_mesh ?ws2"
    by (rule communicate_boundary_all_forget[OF x])
  then have l3: "length ws3 = length ws" by (metis length_map)
  have "ws' ! r = round_of K c thread ?ex (mesh (ws' ! r)) (ws ! r)" if r: "r < length ws" for r
  proof -
    have "forget_mesh (ws3 ! r) = forget_mesh (?ws2 ! r)"
      using f r l3 by (metis length_map nth_map)
    then have "ws3 ! r = (?ws2 ! r)\<lparr>mesh := mesh (ws3 ! r)\<rparr>" by (rule forget_mesh_eqD)
    moreover have "mesh (ws' ! r) = mesh (ws3 ! r)"
      using r l3 by (simp add: ws' after_exchange_def)
    ultimately show ?thesis
      using r l3 by (simp add: ws' round_of_def)
  qed
  then show ?thesis using l3 by (simp add: ws')
qed

lemma local_update_static [simp]:
  "rank (local_update K c thread s) = rank s"
  "size_mpi (local_update K c thread s) = size_mpi s"
  "n_col (local_update K c thread s) = n_col s"
  "send_offset_1 (local_update K c thread s) = send_offset_1 s"
  "recv_offset_1 (local_update K c thread s) = recv_offset_1 s"
  "send_offset_2 (local_update K c thread s) = send_offset_2 s"
  "recv_offset_2 (local_update K c thread s) = recv_offset_2 s"
  "iter (local_update K c thread s) = iter s"
  "exit (local_update K c thread s) = exit s"
  "console (local_update K c thread s) = console s"
  "files (local_update K c thread s) = files s"
  by (simp_all add: local_update_def Let_def)

lemma local_update_length:
  "keeps_length K \<Longrightarrow>
     length (get_mesh K (mesh_obj (local_update K c thread s))) = length (get_mesh K (mesh_obj s))"
  by (simp add: local_update_def Let_def keeps_length_def)

lemma mpi_round_ok:
  assumes kl: "keeps_length K" and rd: "ready K n L ws"
  shows "\<exists>ws'. mpi_round K c thread ws = Inr ws' \<and>
           (\<forall>r < length ws. length (mesh (ws' ! r)) = L r)"
proof -
  let ?ex = "MPI_Allreduce_LAND (map exit_local (map (local_update K c thread) ws))"
  let ?ws2 = "map (after_reduce K ?ex) (map (local_update K c thread) ws)"
  have "lined_up n ?ws2"
    using rd kl by (simp add: lined_up_def ready_def after_reduce_def local_update_length)
  from communicate_boundary_all_ok[OF this] obtain ws3 where
    x: "communicate_boundary_all ?ws2 = Inr ws3"
    and l: "map (\<lambda>s. length (mesh s)) ws3 = map (\<lambda>s. length (mesh s)) ?ws2"
    by blast
  have l3: "length ws3 = length ws" using l by (metis length_map)
  have r: "mpi_round K c thread ws = Inr (map (after_exchange K) ws3)"
    unfolding mpi_round_def Let_def x by simp
  have "length (mesh (map (after_exchange K) ws3 ! r)) = L r" if r: "r < length ws" for r
  proof -
    have "length (mesh (ws3 ! r)) = length (mesh (?ws2 ! r))"
      using l r l3 by (metis (no_types, lifting) length_map nth_map)
    also have "\<dots> = L r"
      using rd kl r by (simp add: ready_def after_reduce_def local_update_length)
    finally show ?thesis using r l3 by (simp add: after_exchange_def)
  qed
  with r show ?thesis by blast
qed

lemma concat_replicate_snoc: "concat (replicate j xs) @ xs = xs @ concat (replicate j xs)"
  by (induction j) simp_all

lemma busy_Suc:
  "busy (Suc j) = busy j @ [Update, Check False, Allreduce_exit, Halo_exchange, Set_mesh]"
  unfolding busy_def by (simp only: concat_replicate_snoc) simp

lemma idle_Suc: "idle (Suc j) = idle j @ [Allreduce_exit, Halo_exchange, Set_mesh]"
  unfolding idle_def by (simp only: concat_replicate_snoc) simp

lemma round_of_simps [simp]:
  "rank (round_of K c thread ex m s) = rank s"
  "size_mpi (round_of K c thread ex m s) = size_mpi s"
  "n_col (round_of K c thread ex m s) = n_col s"
  "send_offset_1 (round_of K c thread ex m s) = send_offset_1 s"
  "recv_offset_1 (round_of K c thread ex m s) = recv_offset_1 s"
  "send_offset_2 (round_of K c thread ex m s) = send_offset_2 s"
  "recv_offset_2 (round_of K c thread ex m s) = recv_offset_2 s"
  "console (round_of K c thread ex m s) = console s"
  "files (round_of K c thread ex m s) = files s"
  "exit (round_of K c thread ex m s) = ex"
  "mesh (round_of K c thread ex m s) = m"
  "exit_local (round_of K c thread ex m s) = exit_local (local_update K c thread s)"
  "iter (round_of K c thread ex m s) = (if ex then iter s else iter s + 1)"
  "mesh_obj (round_of K c thread ex m s) =
     (if ex then mesh_obj (local_update K c thread s)
      else set_mesh K m (mesh_obj (local_update K c thread s)))"
  "trace (round_of K c thread ex m s) =
     trace (local_update K c thread s) @ [Allreduce_exit, Halo_exchange] @
       (if ex then [] else [Set_mesh])"
  by (simp_all add: round_of_def after_exchange_def after_reduce_def)

lemma log_round:
  assumes ne: "\<not> exit s" and lg: "log_ok i s" and i: "1 \<le> i"
    and ex: "ex \<longrightarrow> exit_local (local_update K c thread s)"
  shows "log_ok (if ex then i else Suc i) (round_of K c thread ex m s)"
proof (cases "exit_local s")
  case True
  then have lu: "local_update K c thread s = s" by (simp add: local_update_def)
  from lg ne True obtain k where k: "1 \<le> k" "k < i"
    "trace s = busy (k - 1) @ [Update, Check True] @ idle (i - k)"
    by (auto simp: log_ok_def)
  show ?thesis
  proof (cases ex)
    case True
    have "trace s @ [Allreduce_exit, Halo_exchange] = done_trace k i"
      by (simp add: k(3) done_trace_def)
    then show ?thesis using True \<open>exit_local s\<close> k
      by (auto simp: log_ok_def lu intro!: exI[of _ k])
  next
    case False
    have "Suc i - k = Suc (i - k)" using k by simp
    then have "trace s @ [Allreduce_exit, Halo_exchange, Set_mesh] =
       busy (k - 1) @ [Update, Check True] @ idle (Suc i - k)"
      by (simp add: k(3) idle_Suc)
    then show ?thesis using False \<open>exit_local s\<close> k
      by (auto simp: log_ok_def lu intro!: exI[of _ k])
  qed
next
  case False
  then have tr: "trace s = busy (i - 1)" using lg ne by (simp add: log_ok_def)
  let ?e = "get_error K (update_par K thread (mesh_obj s)) < tolerance c \<or> iter s = n_max c - 1"
  have el: "exit_local (local_update K c thread s) = ?e"
    and tl: "trace (local_update K c thread s) = busy (i - 1) @ [Update, Check ?e]"
    using False tr by (simp_all add: local_update_def Let_def)
  have si: "i = Suc (i - 1)" using i by simp
  show ?thesis
  proof (cases ex)
    case True
    then have e: ?e using ex el by simp
    have "trace (local_update K c thread s) @ [Allreduce_exit, Halo_exchange] = done_trace i i"
      using e by (simp add: tl done_trace_def idle_def)
    then show ?thesis using True e el i
      by (auto simp: log_ok_def intro!: exI[of _ i])
  next
    case nex: False
    show ?thesis
    proof (cases ?e)
      case True
      have "trace (local_update K c thread s) @ [Allreduce_exit, Halo_exchange, Set_mesh] =
         busy (i - 1) @ [Update, Check True] @ idle (Suc i - i)"
        using True by (simp add: tl idle_def)
      then show ?thesis using nex True el i
        by (auto simp: log_ok_def intro!: exI[of _ i])
    next
      case False
      have "trace (local_update K c thread s) @ [Allreduce_exit, Halo_exchange, Set_mesh] =
         busy (Suc (i - 1))"
        using False by (simp add: tl busy_Suc)
      then show ?thesis using nex False el si
        by (auto simp: log_ok_def)
    qed
  qed
qed

lemma local_update_done_at_cap:
  "iter s = n_max c - 1 \<Longrightarrow> exit_local (local_update K c thread s)"
  by (simp add: local_update_def Let_def)

lemma local_update_never:
  "\<forall>k. \<not> get_error K k < tolerance c \<Longrightarrow> \<not> exit_local s \<Longrightarrow>
     exit_local (local_update K c thread s) \<longleftrightarrow> iter s = n_max c - 1"
  by (simp add: local_update_def Let_def)

lemma local_update_always:
  "\<forall>k. get_error K k < tolerance c \<Longrightarrow> exit_local (local_update K c thread s)"
  by (simp add: local_update_def Let_def)

lemma round_step:
  assumes kl: "keeps_length K" and inv: "in_loop K c n L i ws"
    and ne: "\<forall>s \<in> set ws. \<not> exit s"
  shows "\<exists>ws'. mpi_round K c thread ws = Inr ws' \<and> length ws' = length ws \<and>
           ((\<forall>s \<in> set ws'. exit s) \<and> in_loop K c n L i ws' \<or>
            (\<forall>s \<in> set ws'. \<not> exit s) \<and> in_loop K c n L (Suc i) ws')"
proof -
  let ?N = "length ws"
  let ?ex = "MPI_Allreduce_LAND (map (exit_local \<circ> local_update K c thread) ws)"
  have rd: "ready K n L ws" and i1: "1 \<le> i" and ic: "int i \<le> n_max c - 1"
    and each: "\<And>s. s \<in> set ws \<Longrightarrow> iter s = int i \<and> log_ok i s \<and> console s = [] \<and> files s = []"
    and never: "(\<forall>k. \<not> get_error K k < tolerance c) \<Longrightarrow> s \<in> set ws \<Longrightarrow> \<not> exit_local s"
    and always: "(\<forall>k. get_error K k < tolerance c) \<Longrightarrow> i = 1" for s
    using inv ne by (auto simp: in_loop_def)
  have N2: "2 \<le> ?N" using rd by (simp add: ready_def)
  from mpi_round_ok[OF kl rd] obtain ws' where
    r: "mpi_round K c thread ws = Inr ws'" and ml: "\<And>r. r < ?N \<Longrightarrow> length (mesh (ws' ! r)) = L r"
    by blast
  from mpi_round_shape[OF r] have lw: "length ws' = ?N"
    and sh: "\<And>r. r < ?N \<Longrightarrow> ws' ! r = round_of K c thread ?ex (mesh (ws' ! r)) (ws ! r)"
    by simp_all
  have exI: "?ex \<longleftrightarrow> (\<forall>s \<in> set ws. exit_local (local_update K c thread s))"
    by (simp add: MPI_Allreduce_LAND_def list_all_iff)
  have cap: "?ex" if "int i = n_max c - 1"
    unfolding exI using that each by (auto intro: local_update_done_at_cap)
  have mem: "ws ! r \<in> set ws" if "r < ?N" for r using that by simp
  have rd': "ready K n L ws'"
    unfolding ready_def
  proof (intro conjI allI impI)
    show "2 \<le> length ws'" using N2 lw by simp
  next
    fix r assume "r < length ws'"
    then have r: "r < ?N" using lw by simp
    have st: "rank (ws ! r) = int r \<and> size_mpi (ws ! r) = int ?N \<and> n_col (ws ! r) = n \<and>
        send_offset_1 (ws ! r) = int n \<and> recv_offset_1 (ws ! r) = 0 \<and>
        send_offset_2 (ws ! r) = int (L r) - 2 * int n \<and>
        recv_offset_2 (ws ! r) = int (L r) - int n \<and>
        2 * n \<le> L r \<and> length (get_mesh K (mesh_obj (ws ! r))) = L r"
      using rd r by (simp add: ready_def)
    have eq: "ws' ! r = round_of K c thread ?ex (mesh (ws' ! r)) (ws ! r)" by (rule sh[OF r])
    show "rank (ws' ! r) = int r" by (subst eq) (simp add: st)
    show "size_mpi (ws' ! r) = int (length ws')" by (subst eq) (simp add: st lw)
    show "n_col (ws' ! r) = n" by (subst eq) (simp add: st)
    show "send_offset_1 (ws' ! r) = int n" by (subst eq) (simp add: st)
    show "recv_offset_1 (ws' ! r) = 0" by (subst eq) (simp add: st)
    show "send_offset_2 (ws' ! r) = int (L r) - 2 * int n" by (subst eq) (simp add: st)
    show "recv_offset_2 (ws' ! r) = int (L r) - int n" by (subst eq) (simp add: st)
    show "2 * n \<le> L r" by (simp add: st)
    have "length (get_mesh K (mesh_obj (round_of K c thread ?ex (mesh (ws' ! r)) (ws ! r)))) = L r"
      using kl ml[OF r] st by (simp add: local_update_length) (simp add: keeps_length_def)
    then show "length (get_mesh K (mesh_obj (ws' ! r))) = L r" using eq by simp
  qed
  have exits: "exit s' = ?ex" if "s' \<in> set ws'" for s'
  proof -
    from that obtain r where r: "r < ?N" "s' = ws' ! r" using lw by (auto simp: in_set_conv_nth)
    show ?thesis unfolding r(2) by (subst sh[OF r(1)]) simp
  qed
  have each': "iter s' = int (if ?ex then i else Suc i) \<and> log_ok (if ?ex then i else Suc i) s' \<and>
      console s' = [] \<and> files s' = []" if "s' \<in> set ws'" for s'
  proof -
    from that obtain r where r: "r < ?N" "s' = ws' ! r" using lw by (auto simp: in_set_conv_nth)
    have eq: "s' = round_of K c thread ?ex (mesh (ws' ! r)) (ws ! r)"
      unfolding r(2) by (rule sh[OF r(1)])
    have a: "\<not> exit (ws ! r)" using ne mem[OF r(1)] by simp
    have b: "log_ok i (ws ! r)" using each[OF mem[OF r(1)]] by simp
    have c: "?ex \<longrightarrow> exit_local (local_update K c thread (ws ! r))"
      using exI mem[OF r(1)] by simp
    have "log_ok (if ?ex then i else Suc i) (round_of K c thread ?ex (mesh (ws' ! r)) (ws ! r))"
      by (rule log_round[OF a b i1 c])
    then show ?thesis using each[OF mem[OF r(1)]] by (subst (1 2 3 4) eq) simp
  qed
  have locals: "exit_local s' = exit_local (local_update K c thread (ws ! r))"
    if "r < ?N" "s' = ws' ! r" for s' r
    unfolding that(2) by (subst sh[OF that(1)]) simp
  show ?thesis
  proof (cases ?ex)
    case True
    have "in_loop K c n L i ws'"
      unfolding in_loop_def
    proof (intro conjI ballI impI)
      fix s' assume s': "s' \<in> set ws'"
      show "iter s' = int i" "log_ok i s'" "console s' = []" "files s' = []"
        using each'[OF s'] True by simp_all
    next
      fix s' assume nv: "\<forall>k. \<not> get_error K k < tolerance c" and s': "s' \<in> set ws'"
      have "0 < ?N" using N2 by linarith
      then have m0: "ws ! 0 \<in> set ws" by simp
      have "exit_local (local_update K c thread (ws ! 0))" using True exI m0 by simp
      then have "iter (ws ! 0) = n_max c - 1"
        using local_update_never[OF nv never[OF nv m0]] by simp
      then have "int i = n_max c - 1" using each[OF m0] by simp
      then show "if exit s' then int i = n_max c - 1 else \<not> exit_local s'"
        using exits[OF s'] True by simp
    next
      assume "\<forall>k. get_error K k < tolerance c"
      then show "i = 1" by (rule always)
    qed (use rd' i1 ic in simp_all)
    then show ?thesis using r lw exits True by blast
  next
    case False
    have nc: "int i \<noteq> n_max c - 1" using cap False by blast
    have "in_loop K c n L (Suc i) ws'"
      unfolding in_loop_def
    proof (intro conjI ballI impI)
      fix s' assume s': "s' \<in> set ws'"
      show "iter s' = int (Suc i)" "log_ok (Suc i) s'" "console s' = []" "files s' = []"
        using each'[OF s'] False by simp_all
    next
      fix s' assume nv: "\<forall>k. \<not> get_error K k < tolerance c" and s': "s' \<in> set ws'"
      from s' obtain r where r: "r < ?N" "s' = ws' ! r" using lw by (auto simp: in_set_conv_nth)
      have "\<not> exit_local (local_update K c thread (ws ! r))"
        using local_update_never[OF nv never[OF nv mem[OF r(1)]]] each[OF mem[OF r(1)]] nc
        by simp
      then show "if exit s' then int (Suc i) = n_max c - 1 else \<not> exit_local s'"
        using exits[OF s'] False locals[OF r] by simp
    next
      assume "\<forall>k. get_error K k < tolerance c"
      then have ?ex unfolding exI by (simp add: local_update_always)
      then show "Suc i = 1" using False by simp
    qed (use rd' ic nc in simp_all)
    then show ?thesis using r lw exits False by blast
  qed
qed

lemma mpi_loop_runs:
  assumes kl: "keeps_length K"
  shows "in_loop K c n L i ws \<Longrightarrow> \<forall>s \<in> set ws. \<not> exit s \<Longrightarrow>
     \<exists>ws' m. mpi_loop K c thread ws = Some (Inr ws') \<and> i \<le> m \<and> length ws' = length ws \<and>
        in_loop K c n L m ws' \<and> (\<forall>s \<in> set ws'. exit s)"
proof (induction "nat (n_max c - 1 - int i)" arbitrary: i ws)
  case 0
  then have cap: "int i = n_max c - 1" by (simp add: in_loop_def)
  from round_step[OF kl "0.prems"] obtain ws' where
    r: "mpi_round K c thread ws = Inr ws'" and lw: "length ws' = length ws"
    and d: "(\<forall>s \<in> set ws'. exit s) \<and> in_loop K c n L i ws' \<or>
            (\<forall>s \<in> set ws'. \<not> exit s) \<and> in_loop K c n L (Suc i) ws'"
    by blast
  have "\<not> in_loop K c n L (Suc i) ws'" using cap by (simp add: in_loop_def)
  with d have e: "\<forall>s \<in> set ws'. exit s" and inv': "in_loop K c n L i ws'" by blast+
  have "mpi_loop K c thread ws = Some (Inr ws')"
    by (subst mpi_loop.simps) (simp add: r e list_all_iff)
  with e inv' lw show ?case by blast
next
  case (Suc d)
  from round_step[OF kl Suc.prems] obtain ws' where
    r: "mpi_round K c thread ws = Inr ws'" and lw: "length ws' = length ws"
    and dj: "(\<forall>s \<in> set ws'. exit s) \<and> in_loop K c n L i ws' \<or>
            (\<forall>s \<in> set ws'. \<not> exit s) \<and> in_loop K c n L (Suc i) ws'"
    by blast
  from dj show ?case
  proof
    assume a: "(\<forall>s \<in> set ws'. exit s) \<and> in_loop K c n L i ws'"
    have "mpi_loop K c thread ws = Some (Inr ws')"
      by (subst mpi_loop.simps) (simp add: r a list_all_iff)
    with a lw show ?thesis by blast
  next
    assume a: "(\<forall>s \<in> set ws'. \<not> exit s) \<and> in_loop K c n L (Suc i) ws'"
    then have "2 \<le> length ws'" by (simp add: in_loop_def ready_def)
    then have "ws' \<noteq> []" by auto
    then have "\<not> list_all exit ws'" using a by (cases ws') simp_all
    then have unf: "mpi_loop K c thread ws = mpi_loop K c thread ws'"
      by (subst mpi_loop.simps) (simp add: r)
    have "d = nat (n_max c - 1 - int (Suc i))" using Suc.hyps(2) by simp
    from Suc.hyps(1)[OF this] a obtain ws'' m where
      "mpi_loop K c thread ws' = Some (Inr ws'')" "Suc i \<le> m" "length ws'' = length ws'"
      "in_loop K c n L m ws''" "\<forall>s \<in> set ws''. exit s"
      by blast
    then show ?thesis using unf lw by (intro exI[of _ ws''] exI[of _ m]) simp
  qed
qed

lemma group_in_loop:
  assumes "2 \<le> length bufs" "2 \<le> n_max c"
    and "\<forall>r < length bufs. 2 * n \<le> length (bufs ! r) \<and>
           length (get_mesh K (ks ! r)) = length (bufs ! r)"
  shows "in_loop K c n (\<lambda>r. length (bufs ! r)) 1 (map start_loop (process_group n bufs ks))"
    and "\<forall>s \<in> set (map start_loop (process_group n bufs ks)). \<not> exit s"
  using assms
  by (auto simp: in_loop_def ready_def process_group_def start_loop_def Solver_init_def log_ok_def busy_def)

lemma mpi_loop_group:
  assumes kl: "keeps_length K" and "2 \<le> length bufs" "2 \<le> n_max c"
    and "\<forall>r < length bufs. 2 * n \<le> length (bufs ! r) \<and>
           length (get_mesh K (ks ! r)) = length (bufs ! r)"
  shows "\<exists>ws' m. mpi_loop K c thread (map start_loop (process_group n bufs ks)) = Some (Inr ws') \<and>
           length ws' = length bufs \<and>
           in_loop K c n (\<lambda>r. length (bufs ! r)) m ws' \<and> (\<forall>s \<in> set ws'. exit s)"
proof -
  have "length (map start_loop (process_group n bufs ks)) = length bufs" by (simp add: process_group_def)
  with mpi_loop_runs[OF kl group_in_loop[OF assms(2-4)], of thread] show ?thesis by metis
qed

text \<open>The rounds of a run, one by one.\<close>

lemma mpi_round_rows:
  assumes kl: "keeps_length K" and rd: "ready K n L ws"
    and r: "mpi_round K c thread ws = Inr ws'"
  shows "\<forall>r < length ws. mesh (ws' ! r) =
           halo_exchanged n (map (\<lambda>s. get_mesh K (mesh_obj (local_update K c thread s))) ws) r"
proof -
  let ?ex = "MPI_Allreduce_LAND (map exit_local (map (local_update K c thread) ws))"
  let ?ws2 = "map (after_reduce K ?ex) (map (local_update K c thread) ws)"
  from r obtain ws3 where x: "communicate_boundary_all ?ws2 = Inr ws3"
    and ws': "ws' = map (after_exchange K) ws3"
    by (auto simp: mpi_round_def Let_def split: sum.splits)
  have lu: "lined_up n ?ws2"
    using rd kl by (simp add: lined_up_def ready_def after_reduce_def local_update_length)
  have m2: "map mesh ?ws2 = map (\<lambda>s. get_mesh K (mesh_obj (local_update K c thread s))) ws"
    by (simp add: after_reduce_def comp_def)
  from communicate_boundary_all_forget[OF x] have l3: "length ws3 = length ws"
    by (metis length_map)
  from communicate_boundary_all_rows[OF lu x]
  have "\<forall>r < length ws. mesh (ws3 ! r) = halo_exchanged n (map mesh ?ws2) r" by simp
  then show ?thesis
    unfolding m2 using l3 by (simp add: ws' after_exchange_def)
qed

lemma loop_head_Suc:
  "loop_head K c thread (Suc j) ws =
     (case loop_head K c thread j ws of
        None \<Rightarrow> None
      | Some wsj \<Rightarrow>
          (case mpi_round K c thread wsj of
             Inl e \<Rightarrow> None
           | Inr ws' \<Rightarrow> if list_all exit ws' then None else Some ws'))"
proof (induction j arbitrary: ws)
  case 0
  then show ?case by (simp split: sum.splits)
next
  case (Suc j)
  show ?case
  proof (cases "mpi_round K c thread ws")
    case (Inl e)
    then show ?thesis by simp
  next
    case (Inr ws1)
    show ?thesis
    proof (cases "list_all exit ws1")
      case True
      then show ?thesis using Inr by simp
    next
      case False
      have "loop_head K c thread (Suc (Suc j)) ws = loop_head K c thread (Suc j) ws1"
        using Inr False by simp
      also note Suc[of ws1]
      also have "loop_head K c thread j ws1 = loop_head K c thread (Suc j) ws"
        using Inr False by simp
      finally show ?thesis .
    qed
  qed
qed

lemma loop_head_step:
  assumes "loop_head K c thread (Suc j) ws = Some wsj'"
  obtains wsj where "loop_head K c thread j ws = Some wsj"
    "mpi_round K c thread wsj = Inr wsj'" "\<not> list_all exit wsj'"
  using assms unfolding loop_head_Suc
  by (auto split: option.splits sum.splits if_splits)

lemma loop_head_earlier:
  "loop_head K c thread m ws = Some wsl \<Longrightarrow> j \<le> m \<Longrightarrow>
     \<exists>wsj. loop_head K c thread j ws = Some wsj"
proof (induction m arbitrary: wsl)
  case 0
  then show ?case by simp
next
  case (Suc m)
  show ?case
  proof (cases "j = Suc m")
    case True
    then show ?thesis using Suc.prems by simp
  next
    case False
    from Suc.prems(1) obtain wsm where "loop_head K c thread m ws = Some wsm"
      by (rule loop_head_step)
    then show ?thesis using Suc.IH[of wsm] Suc.prems(2) False by simp
  qed
qed

lemma loop_head_inv:
  assumes kl: "keeps_length K"
  shows "in_loop K c n L i ws \<Longrightarrow> \<forall>s \<in> set ws. \<not> exit s \<Longrightarrow>
     loop_head K c thread j ws = Some wsj \<Longrightarrow>
     in_loop K c n L (i + j) wsj \<and> (\<forall>s \<in> set wsj. \<not> exit s) \<and> length wsj = length ws"
proof (induction j arbitrary: wsj)
  case 0
  then show ?case by simp
next
  case (Suc j)
  from Suc.prems(3) obtain wsp where p: "loop_head K c thread j ws = Some wsp"
    "mpi_round K c thread wsp = Inr wsj" "\<not> list_all exit wsj"
    by (rule loop_head_step)
  from Suc.IH[OF Suc.prems(1,2) p(1)] have inv: "in_loop K c n L (i + j) wsp"
    and ne: "\<forall>s \<in> set wsp. \<not> exit s" and l: "length wsp = length ws"
    by simp_all
  from round_step[OF kl inv ne, of thread] p(2) have lw: "length wsj = length wsp"
    and d: "(\<forall>s \<in> set wsj. exit s) \<and> in_loop K c n L (i + j) wsj \<or>
            (\<forall>s \<in> set wsj. \<not> exit s) \<and> in_loop K c n L (Suc (i + j)) wsj"
    by auto
  from d p(3) have "(\<forall>s \<in> set wsj. \<not> exit s) \<and> in_loop K c n L (Suc (i + j)) wsj"
    by (auto simp: list_all_iff)
  then show ?case using lw l by simp
qed

lemma mpi_loop_rounds:
  assumes kl: "keeps_length K"
  shows "in_loop K c n L i ws \<Longrightarrow> \<forall>s \<in> set ws. \<not> exit s \<Longrightarrow>
     \<exists>m wsl ws'. loop_head K c thread m ws = Some wsl \<and>
        mpi_round K c thread wsl = Inr ws' \<and> list_all exit ws' \<and>
        mpi_loop K c thread ws = Some (Inr ws')"
proof (induction "nat (n_max c - 1 - int i)" arbitrary: i ws)
  case 0
  then have cap: "int i = n_max c - 1" by (simp add: in_loop_def)
  from round_step[OF kl "0.prems"] obtain ws' where
    r: "mpi_round K c thread ws = Inr ws'"
    and d: "(\<forall>s \<in> set ws'. exit s) \<and> in_loop K c n L i ws' \<or>
            (\<forall>s \<in> set ws'. \<not> exit s) \<and> in_loop K c n L (Suc i) ws'"
    by blast
  have "\<not> in_loop K c n L (Suc i) ws'" using cap by (simp add: in_loop_def)
  with d have e: "list_all exit ws'" by (auto simp: list_all_iff)
  have "mpi_loop K c thread ws = Some (Inr ws')"
    by (subst mpi_loop.simps) (simp add: r e)
  with r e show ?case by (intro exI[of _ 0] exI[of _ ws] exI[of _ ws']) simp
next
  case (Suc d)
  from round_step[OF kl Suc.prems] obtain ws' where
    r: "mpi_round K c thread ws = Inr ws'"
    and dj: "(\<forall>s \<in> set ws'. exit s) \<and> in_loop K c n L i ws' \<or>
            (\<forall>s \<in> set ws'. \<not> exit s) \<and> in_loop K c n L (Suc i) ws'"
    by blast
  from dj show ?case
  proof
    assume a: "(\<forall>s \<in> set ws'. exit s) \<and> in_loop K c n L i ws'"
    then have e: "list_all exit ws'" by (simp add: list_all_iff)
    have "mpi_loop K c thread ws = Some (Inr ws')"
      by (subst mpi_loop.simps) (simp add: r e)
    with r e show ?thesis by (intro exI[of _ 0] exI[of _ ws] exI[of _ ws']) simp
  next
    assume a: "(\<forall>s \<in> set ws'. \<not> exit s) \<and> in_loop K c n L (Suc i) ws'"
    then have "2 \<le> length ws'" by (simp add: in_loop_def ready_def)
    then have "ws' \<noteq> []" by auto
    then have ne: "\<not> list_all exit ws'" using a by (cases ws') simp_all
    then have unf: "mpi_loop K c thread ws = mpi_loop K c thread ws'"
      by (subst mpi_loop.simps) (simp add: r)
    have "d = nat (n_max c - 1 - int (Suc i))" using Suc.hyps(2) by simp
    from Suc.hyps(1)[OF this] a obtain m wsl ws'' where
      "loop_head K c thread m ws' = Some wsl" "mpi_round K c thread wsl = Inr ws''"
      "list_all exit ws''" "mpi_loop K c thread ws' = Some (Inr ws'')"
      by blast
    then show ?thesis using unf r ne
      by (intro exI[of _ "Suc m"] exI[of _ wsl] exI[of _ ws'']) simp
  qed
qed

lemma last_round_inv:
  assumes kl: "keeps_length K" and inv: "in_loop K c n L i ws"
    and ne: "\<forall>s \<in> set ws. \<not> exit s"
    and h: "loop_head K c thread m ws = Some wsl"
    and r: "mpi_round K c thread wsl = Inr ws'" and e: "list_all exit ws'"
  shows "in_loop K c n L (i + m) ws' \<and> length ws' = length ws"
proof -
  from loop_head_inv[OF kl inv ne h] have invl: "in_loop K c n L (i + m) wsl"
    and nel: "\<forall>s \<in> set wsl. \<not> exit s" and l: "length wsl = length ws"
    by simp_all
  from round_step[OF kl invl nel, of thread] r have lw: "length ws' = length wsl"
    and d: "(\<forall>s \<in> set ws'. exit s) \<and> in_loop K c n L (i + m) ws' \<or>
            (\<forall>s \<in> set ws'. \<not> exit s) \<and> in_loop K c n L (Suc (i + m)) ws'"
    by auto
  have "2 \<le> length ws'" using invl lw by (simp add: in_loop_def ready_def)
  then have "ws' \<noteq> []" by auto
  then obtain s where "s \<in> set ws'" by (cases ws') auto
  with e d have "in_loop K c n L (i + m) ws'" by (auto simp: list_all_iff)
  with lw l show ?thesis by simp
qed

lemma round_facts:
  assumes kl: "keeps_length K" and rd: "ready K n L ws"
    and r: "mpi_round K c thread ws = Inr ws'" and rr: "r < length ws"
  shows "(exit_local (ws ! r) \<longrightarrow>
            local_update K c thread (ws ! r) = ws ! r \<and> exit_local (ws' ! r) \<and>
            count_list (trace (ws' ! r)) Update = count_list (trace (ws ! r)) Update \<and>
            mesh_obj (ws' ! r) =
              (if exit (ws' ! r) then mesh_obj (ws ! r)
               else set_mesh K (mesh (ws' ! r)) (mesh_obj (ws ! r)))) \<and>
         exit (ws' ! r) = MPI_Allreduce_LAND (map (\<lambda>s. exit_local (local_update K c thread s)) ws) \<and>
         mesh (ws' ! r) =
           halo_exchanged n (map (\<lambda>s. get_mesh K (mesh_obj (local_update K c thread s))) ws) r \<and>
         trace (ws' ! r) =
           trace (local_update K c thread (ws ! r)) @ [Allreduce_exit, Halo_exchange] @
             (if exit (ws' ! r) then [] else [Set_mesh]) \<and>
         list_all (\<lambda>c. is_sendrecv_with c (dest c))
           (communicate_boundary (exchanging K c thread ws r)) \<and>
         map dest (communicate_boundary (exchanging K c thread ws r)) = neighbours (length ws) r"
proof -
  let ?ex = "MPI_Allreduce_LAND (map (exit_local \<circ> local_update K c thread) ws)"
  have st: "rank (ws ! r) = int r" "size_mpi (ws ! r) = int (length ws)" "2 \<le> length ws"
    using rd rr by (simp_all add: ready_def)
  have last: "int r = int (length ws) - 1 \<longleftrightarrow> Suc r = length ws" using rr by linarith
  have 5: "list_all (\<lambda>c. is_sendrecv_with c (dest c))
           (communicate_boundary (exchanging K c thread ws r)) \<and>
         map dest (communicate_boundary (exchanging K c thread ws r)) = neighbours (length ws) r"
    using st last
    by (simp add: exchanging_def after_reduce_def communicate_boundary_def is_sendrecv_with_def
        neighbours_def)
  have exeq: "MPI_Allreduce_LAND (map (\<lambda>s. exit_local (local_update K c thread s)) ws) = ?ex"
    by (simp add: comp_def)
  from mpi_round_shape[OF r] rr
  have sh: "ws' ! r = round_of K c thread ?ex (mesh (ws' ! r)) (ws ! r)" by simp
  have 2: "exit (ws' ! r) = ?ex" by (subst sh) simp
  have 3: "mesh (ws' ! r) =
           halo_exchanged n (map (\<lambda>s. get_mesh K (mesh_obj (local_update K c thread s))) ws) r"
    using mpi_round_rows[OF kl rd r] rr by simp
  have 4: "trace (ws' ! r) =
           trace (local_update K c thread (ws ! r)) @ [Allreduce_exit, Halo_exchange] @
             (if exit (ws' ! r) then [] else [Set_mesh])"
    unfolding 2 by (subst sh) simp
  have 1: "local_update K c thread (ws ! r) = ws ! r \<and> exit_local (ws' ! r) \<and>
            count_list (trace (ws' ! r)) Update = count_list (trace (ws ! r)) Update \<and>
            mesh_obj (ws' ! r) =
              (if exit (ws' ! r) then mesh_obj (ws ! r)
               else set_mesh K (mesh (ws' ! r)) (mesh_obj (ws ! r)))" if el: "exit_local (ws ! r)"
  proof -
    have lu: "local_update K c thread (ws ! r) = ws ! r" using el by (simp add: local_update_def)
    have a: "exit_local (ws' ! r)" by (subst sh) (simp add: lu el)
    have b: "count_list (trace (ws' ! r)) Update = count_list (trace (ws ! r)) Update"
      unfolding 4 lu by simp
    have c: "mesh_obj (ws' ! r) =
              (if exit (ws' ! r) then mesh_obj (ws ! r)
               else set_mesh K (mesh (ws' ! r)) (mesh_obj (ws ! r)))"
      unfolding 2 by (subst sh) (simp add: lu)
    from lu a b c show ?thesis by simp
  qed
  from 1 2 3 4 5 show ?thesis unfolding exeq by blast
qed

subsection \<open>The log of a process of the distributed loop\<close>

lemma count_idle [simp]:
  "count_list (idle j) Update = 0" "count_list (idle j) Allreduce_exit = j"
  "count_list (idle j) Halo_exchange = j"
  by (induction j) (simp_all add: idle_def)

lemma count_busy [simp]: "count_list (busy j) Update = j"
  by (induction j) (simp_all add: busy_def)

lemma Update_notin_idle [simp]: "Update \<notin> set (idle j)"
  by (induction j) (simp_all add: idle_def)

text \<open>
  A run of two processes with two columns. Rank 1 is done after its first sweep and rank 0
  after its third. In the rounds 2 and 3 rank 1 makes no sweep (its kernel has the sweep
  count 1), and its leading halo row receives the rows \<open>[2, 2]\<close> and \<open>[3, 3]\<close> of rank 0.
\<close>

lemma done_process_example:
  "map_option (map_sum id (map (\<lambda>s. (mesh s, mesh_obj s, trace s))))
     (mpi_loop (sample_kernel (\<lambda>xs k. if hd xs < 3 then 1 else 0))
        \<lparr>tolerance = 1 / 2, n_max = 10\<rparr> 1
        (map start_loop (process_group 2 [[0, 0, 0, 0], [5, 5, 5, 5]]
           [([0, 0, 0, 0], 2, 0), ([5, 5, 5, 5], 2, 0)]))) =
   Some (Inr [([3, 3, 6, 6], ([3, 3, 7, 7], 2, 3),
         [Update, Check False, Allreduce_exit, Halo_exchange, Set_mesh,
          Update, Check False, Allreduce_exit, Halo_exchange, Set_mesh,
          Update, Check True, Allreduce_exit, Halo_exchange]),
        ([3, 3, 6, 6], ([2, 2, 6, 6], 2, 1),
         [Update, Check True, Allreduce_exit, Halo_exchange, Set_mesh,
          Allreduce_exit, Halo_exchange, Set_mesh, Allreduce_exit,
          Halo_exchange])])"
  by (simp add: mpi_loop.simps mpi_round_def local_update_def MPI_Allreduce_LAND_def
      after_reduce_def after_exchange_def communicate_boundary_all_def communicate_boundary_def
      serve_rank_def do_sendrecv_def sendrecv_pair_def is_sendrecv_with_def region_def store_def
      process_group_def start_loop_def Solver_init_def sample_kernel_def Let_def upt_rec)

text \<open>
  Claim C5. Take a group of at least two processes, constructed on buffers of at least two
  rows, with a row length \<open>n\<close> that fits the \<open>int\<close> count of the calls, and a kernel that
  keeps the size of its grid. The distributed loop ends after some number \<open>m + 1\<close> of
  rounds. In every one of these rounds every process, done or not, takes part in the
  reduction of the flags (its \<open>exit\<close> is the logical and of the flags of all processes) and
  in the halo exchange: it makes its \<open>MPI_Sendrecv\<close> calls with its neighbours, and the calls
  are completed, for afterwards its buffer is what \<open>halo_exchanged\<close> says, so it holds the
  boundary rows that its neighbours sent and its neighbours hold the rows that it sent; and
  it logs both steps. A process that is done at the head of a round makes no sweep in that round:
  \<open>local_update\<close> leaves it as it is, it stays done, its log gains no \<open>Update\<close>, and its kernel
  object changes only by taking the exchanged buffer. At the end the log of every process
  has this shape: the process became done in a round \<open>k \<le> m + 1\<close> (its \<open>k\<close>-th sweep,
  followed by \<open>Check True\<close>); the rest \<open>post\<close> of the log holds no further sweep, and it holds
  one reduction of the flags and one halo exchange for each of the rounds \<open>k, ..., m + 1\<close>.
\<close>

theorem done_process_still_communicates:
  assumes "keeps_length K" and "2 \<le> length bufs" and "2 \<le> n_max c"
    and "\<forall>r < length bufs. 2 * n \<le> length (bufs ! r) \<and>
           length (get_mesh K (ks ! r)) = length (bufs ! r)"
    and "n < 2 ^ 31"
  shows "\<exists>m ws'. mpi_loop K c thread (map start_loop (process_group n bufs ks)) = Some (Inr ws') \<and>
           (\<forall>j \<le> m. \<exists>ws1 ws2.
              loop_head K c thread j (map start_loop (process_group n bufs ks)) = Some ws1 \<and>
              mpi_round K c thread ws1 = Inr ws2 \<and>
              (if j = m then ws2 = ws'
               else loop_head K c thread (Suc j) (map start_loop (process_group n bufs ks)) = Some ws2) \<and>
              (\<forall>r < length bufs.
                 (exit_local (ws1 ! r) \<longrightarrow>
                    local_update K c thread (ws1 ! r) = ws1 ! r \<and> exit_local (ws2 ! r) \<and>
                    count_list (trace (ws2 ! r)) Update = count_list (trace (ws1 ! r)) Update \<and>
                    mesh_obj (ws2 ! r) =
                      (if exit (ws2 ! r) then mesh_obj (ws1 ! r)
                       else set_mesh K (mesh (ws2 ! r)) (mesh_obj (ws1 ! r)))) \<and>
                 exit (ws2 ! r) =
                   MPI_Allreduce_LAND (map (\<lambda>s. exit_local (local_update K c thread s)) ws1) \<and>
                 mesh (ws2 ! r) =
                   halo_exchanged n
                     (map (\<lambda>s. get_mesh K (mesh_obj (local_update K c thread s))) ws1) r \<and>
                 trace (ws2 ! r) =
                   trace (local_update K c thread (ws1 ! r)) @ [Allreduce_exit, Halo_exchange] @
                     (if exit (ws2 ! r) then [] else [Set_mesh]) \<and>
                 list_all (\<lambda>c. is_sendrecv_with c (dest c))
                   (communicate_boundary (exchanging K c thread ws1 r)) \<and>
                 map dest (communicate_boundary (exchanging K c thread ws1 r)) =
                   neighbours (length bufs) r)) \<and>
           (\<forall>s \<in> set ws'. \<exists>k post. 1 \<le> k \<and> k \<le> Suc m \<and>
              trace s = busy (k - 1) @ [Update, Check True] @ post \<and>
              post = idle (Suc m - k) @ [Allreduce_exit, Halo_exchange] \<and>
              Update \<notin> set post \<and>
              count_list post Allreduce_exit = Suc m - k + 1 \<and>
              count_list post Halo_exchange = Suc m - k + 1)"
proof -
  let ?ws0 = "map start_loop (process_group n bufs ks)"
  let ?L = "\<lambda>r. length (bufs ! r)"
  note kl = assms(1)
  note g = group_in_loop[OF assms(2,3,4)]
  have l0: "length ?ws0 = length bufs" by (simp add: process_group_def)
  from mpi_loop_rounds[OF kl g, of thread] obtain m wsl ws' where
    h: "loop_head K c thread m ?ws0 = Some wsl" and r: "mpi_round K c thread wsl = Inr ws'"
    and e: "list_all exit ws'" and l: "mpi_loop K c thread ?ws0 = Some (Inr ws')"
    by blast
  from last_round_inv[OF kl g h r e] have inv': "in_loop K c n ?L (Suc m) ws'" by simp
  have rounds: "\<exists>ws1 ws2.
              loop_head K c thread j ?ws0 = Some ws1 \<and>
              mpi_round K c thread ws1 = Inr ws2 \<and>
              (if j = m then ws2 = ws' else loop_head K c thread (Suc j) ?ws0 = Some ws2) \<and>
              (\<forall>r < length bufs.
                 (exit_local (ws1 ! r) \<longrightarrow>
                    local_update K c thread (ws1 ! r) = ws1 ! r \<and> exit_local (ws2 ! r) \<and>
                    count_list (trace (ws2 ! r)) Update = count_list (trace (ws1 ! r)) Update \<and>
                    mesh_obj (ws2 ! r) =
                      (if exit (ws2 ! r) then mesh_obj (ws1 ! r)
                       else set_mesh K (mesh (ws2 ! r)) (mesh_obj (ws1 ! r)))) \<and>
                 exit (ws2 ! r) =
                   MPI_Allreduce_LAND (map (\<lambda>s. exit_local (local_update K c thread s)) ws1) \<and>
                 mesh (ws2 ! r) =
                   halo_exchanged n
                     (map (\<lambda>s. get_mesh K (mesh_obj (local_update K c thread s))) ws1) r \<and>
                 trace (ws2 ! r) =
                   trace (local_update K c thread (ws1 ! r)) @ [Allreduce_exit, Halo_exchange] @
                     (if exit (ws2 ! r) then [] else [Set_mesh]) \<and>
                 list_all (\<lambda>c. is_sendrecv_with c (dest c))
                   (communicate_boundary (exchanging K c thread ws1 r)) \<and>
                 map dest (communicate_boundary (exchanging K c thread ws1 r)) =
                   neighbours (length bufs) r)" if j: "j \<le> m" for j
  proof -
    have "\<exists>ws1 ws2. loop_head K c thread j ?ws0 = Some ws1 \<and>
              mpi_round K c thread ws1 = Inr ws2 \<and>
              (if j = m then ws2 = ws' else loop_head K c thread (Suc j) ?ws0 = Some ws2)"
    proof (cases "j = m")
      case True
      then show ?thesis using h r by simp
    next
      case False
      then have "Suc j \<le> m" using j by simp
      from loop_head_earlier[OF h this] obtain ws2 where
        n: "loop_head K c thread (Suc j) ?ws0 = Some ws2" by blast
      from n obtain ws1 where "loop_head K c thread j ?ws0 = Some ws1"
        "mpi_round K c thread ws1 = Inr ws2"
        by (rule loop_head_step)
      with n False show ?thesis by simp
    qed
    then obtain ws1 ws2 where a: "loop_head K c thread j ?ws0 = Some ws1"
      and b: "mpi_round K c thread ws1 = Inr ws2"
      and c: "if j = m then ws2 = ws' else loop_head K c thread (Suc j) ?ws0 = Some ws2"
      by blast
    from loop_head_inv[OF kl g a] have rd: "ready K n ?L ws1" and l1: "length ws1 = length bufs"
      using l0 by (simp_all add: in_loop_def)
    show ?thesis
      by (rule exI[of _ ws1], rule exI[of _ ws2], intro conjI allI impI a b c)
         (use round_facts[OF kl rd b] l1 in simp_all)
  qed
  have logs: "\<exists>k post. 1 \<le> k \<and> k \<le> Suc m \<and>
              trace s = busy (k - 1) @ [Update, Check True] @ post \<and>
              post = idle (Suc m - k) @ [Allreduce_exit, Halo_exchange] \<and>
              Update \<notin> set post \<and>
              count_list post Allreduce_exit = Suc m - k + 1 \<and>
              count_list post Halo_exchange = Suc m - k + 1" if s: "s \<in> set ws'" for s
  proof -
    from inv' e s obtain k where k: "1 \<le> k" "k \<le> Suc m" "trace s = done_trace k (Suc m)"
      by (auto simp: in_loop_def log_ok_def list_all_iff)
    show ?thesis
      by (rule exI[of _ k], rule exI[of _ "idle (Suc m - k) @ [Allreduce_exit, Halo_exchange]"])
         (use k(1,2) in \<open>simp add: k(3) done_trace_def\<close>)
  qed
  show ?thesis
    by (rule exI[of _ m], rule exI[of _ ws'], intro conjI allI impI ballI l rounds logs)
qed

theorem done_process_still_communicates_witness:
  "\<exists>m ws'. mpi_loop (sample_kernel (\<lambda>xs k. if hd xs < 3 then 1 else 0))
       \<lparr>tolerance = 1 / 2, n_max = 10\<rparr> 1
       (map start_loop (process_group 2 [[0, 0, 0, 0], [5, 5, 5, 5]]
          [([0, 0, 0, 0], 2, 0), ([5, 5, 5, 5], 2, 0)])) = Some (Inr ws') \<and>
     (\<exists>ws1 ws2.
        loop_head (sample_kernel (\<lambda>xs k. if hd xs < 3 then 1 else 0))
          \<lparr>tolerance = 1 / 2, n_max = 10\<rparr> 1 m
          (map start_loop (process_group 2 [[0, 0, 0, 0], [5, 5, 5, 5]]
             [([0, 0, 0, 0], 2, 0), ([5, 5, 5, 5], 2, 0)])) = Some ws1 \<and>
        mpi_round (sample_kernel (\<lambda>xs k. if hd xs < 3 then 1 else 0))
          \<lparr>tolerance = 1 / 2, n_max = 10\<rparr> 1 ws1 = Inr ws2 \<and> ws2 = ws' \<and>
        map (\<lambda>s. (mesh s, mesh_obj s)) ws2 =
          [([3, 3, 6, 6], ([3, 3, 7, 7], 2, 3)), ([3, 3, 6, 6], ([2, 2, 6, 6], 2, 1))] \<and>
        mesh (ws2 ! 1) =
          halo_exchanged 2
            (map (\<lambda>s. get_mesh (sample_kernel (\<lambda>xs k. if hd xs < 3 then 1 else 0))
                    (mesh_obj (local_update (sample_kernel (\<lambda>xs k. if hd xs < 3 then 1 else 0))
                       \<lparr>tolerance = 1 / 2, n_max = 10\<rparr> 1 s))) ws1) 1) \<and>
     list_all (\<lambda>s. \<exists>k post. 1 \<le> k \<and> k \<le> Suc m \<and>
              trace s = busy (k - 1) @ [Update, Check True] @ post \<and>
              post = idle (Suc m - k) @ [Allreduce_exit, Halo_exchange] \<and>
              Update \<notin> set post) ws'"
proof -
  let ?K = "sample_kernel (\<lambda>xs k. if hd xs < 3 then 1 else 0)"
  let ?c = "\<lparr>tolerance = 1 / 2, n_max = 10\<rparr>"
  let ?bufs = "[[0, 0, 0, 0], [5, 5, 5, 5 :: int]]"
  let ?ks = "[([0, 0, 0, 0], 2, 0), ([5, 5, 5, 5 :: int], 2 :: nat, 0 :: nat)]"
  have kl: "keeps_length ?K"
    by (simp add: keeps_length_def sample_kernel_def split_def)
  have l2: "length ?bufs = 2" by simp
  have b: "\<forall>r < length ?bufs. 2 * 2 \<le> length (?bufs ! r) \<and>
     length (get_mesh ?K (?ks ! r)) = length (?bufs ! r)"
    unfolding l2 by (auto simp: sample_kernel_def dest!: less_2_cases)
  have N2: "2 \<le> length ?bufs" by simp
  have nm: "2 \<le> n_max ?c" by simp
  have n31: "(2 :: nat) < 2 ^ 31" by simp
  from done_process_still_communicates[OF kl N2 nm b n31, of 1] obtain m ws' where
    a: "mpi_loop ?K ?c 1 (map start_loop (process_group 2 ?bufs ?ks)) = Some (Inr ws')"
    and rounds: "\<forall>j \<le> m. \<exists>ws1 ws2.
              loop_head ?K ?c 1 j (map start_loop (process_group 2 ?bufs ?ks)) = Some ws1 \<and>
              mpi_round ?K ?c 1 ws1 = Inr ws2 \<and>
              (if j = m then ws2 = ws'
               else loop_head ?K ?c 1 (Suc j) (map start_loop (process_group 2 ?bufs ?ks)) = Some ws2) \<and>
              (\<forall>r < length ?bufs.
                 (exit_local (ws1 ! r) \<longrightarrow>
                    local_update ?K ?c 1 (ws1 ! r) = ws1 ! r \<and> exit_local (ws2 ! r) \<and>
                    count_list (trace (ws2 ! r)) Update = count_list (trace (ws1 ! r)) Update \<and>
                    mesh_obj (ws2 ! r) =
                      (if exit (ws2 ! r) then mesh_obj (ws1 ! r)
                       else set_mesh ?K (mesh (ws2 ! r)) (mesh_obj (ws1 ! r)))) \<and>
                 exit (ws2 ! r) =
                   MPI_Allreduce_LAND (map (\<lambda>s. exit_local (local_update ?K ?c 1 s)) ws1) \<and>
                 mesh (ws2 ! r) =
                   halo_exchanged 2
                     (map (\<lambda>s. get_mesh ?K (mesh_obj (local_update ?K ?c 1 s))) ws1) r \<and>
                 trace (ws2 ! r) =
                   trace (local_update ?K ?c 1 (ws1 ! r)) @ [Allreduce_exit, Halo_exchange] @
                     (if exit (ws2 ! r) then [] else [Set_mesh]) \<and>
                 list_all (\<lambda>c. is_sendrecv_with c (dest c))
                   (communicate_boundary (exchanging ?K ?c 1 ws1 r)) \<and>
                 map dest (communicate_boundary (exchanging ?K ?c 1 ws1 r)) =
                   neighbours (length ?bufs) r)"
    and logs: "\<forall>s \<in> set ws'. \<exists>k post. 1 \<le> k \<and> k \<le> Suc m \<and>
              trace s = busy (k - 1) @ [Update, Check True] @ post \<and>
              post = idle (Suc m - k) @ [Allreduce_exit, Halo_exchange] \<and>
              Update \<notin> set post \<and>
              count_list post Allreduce_exit = Suc m - k + 1 \<and>
              count_list post Halo_exchange = Suc m - k + 1"
    by (elim exE conjE)
  have "m \<le> m" by simp
  with rounds obtain ws1 ws2 where
    r1: "loop_head ?K ?c 1 m (map start_loop (process_group 2 ?bufs ?ks)) = Some ws1"
    and r2: "mpi_round ?K ?c 1 ws1 = Inr ws2"
    and r3': "if m = m then ws2 = ws'
       else loop_head ?K ?c 1 (Suc m) (map start_loop (process_group 2 ?bufs ?ks)) = Some ws2"
    and all: "\<forall>r < length ?bufs.
                 (exit_local (ws1 ! r) \<longrightarrow>
                    local_update ?K ?c 1 (ws1 ! r) = ws1 ! r \<and> exit_local (ws2 ! r) \<and>
                    count_list (trace (ws2 ! r)) Update = count_list (trace (ws1 ! r)) Update \<and>
                    mesh_obj (ws2 ! r) =
                      (if exit (ws2 ! r) then mesh_obj (ws1 ! r)
                       else set_mesh ?K (mesh (ws2 ! r)) (mesh_obj (ws1 ! r)))) \<and>
                 exit (ws2 ! r) =
                   MPI_Allreduce_LAND (map (\<lambda>s. exit_local (local_update ?K ?c 1 s)) ws1) \<and>
                 mesh (ws2 ! r) =
                   halo_exchanged 2
                     (map (\<lambda>s. get_mesh ?K (mesh_obj (local_update ?K ?c 1 s))) ws1) r \<and>
                 trace (ws2 ! r) =
                   trace (local_update ?K ?c 1 (ws1 ! r)) @ [Allreduce_exit, Halo_exchange] @
                     (if exit (ws2 ! r) then [] else [Set_mesh]) \<and>
                 list_all (\<lambda>c. is_sendrecv_with c (dest c))
                   (communicate_boundary (exchanging ?K ?c 1 ws1 r)) \<and>
                 map dest (communicate_boundary (exchanging ?K ?c 1 ws1 r)) =
                   neighbours (length ?bufs) r"
    by blast
  from r3' have r3: "ws2 = ws'" by simp
  have "1 < length ?bufs" by simp
  with all have r4: "mesh (ws2 ! 1) =
                   halo_exchanged 2
                     (map (\<lambda>s. get_mesh ?K (mesh_obj (local_update ?K ?c 1 s))) ws1) 1"
    by blast
  have l: "list_all (\<lambda>s. \<exists>k post. 1 \<le> k \<and> k \<le> Suc m \<and>
              trace s = busy (k - 1) @ [Update, Check True] @ post \<and>
              post = idle (Suc m - k) @ [Allreduce_exit, Halo_exchange] \<and>
              Update \<notin> set post) ws'"
    unfolding list_all_iff using logs by blast
  have r5: "map (\<lambda>s. (mesh s, mesh_obj s)) ws2 =
          [([3, 3, 6, 6], ([3, 3, 7, 7], 2, 3)), ([3, 3, 6, 6], ([2, 2, 6, 6], 2, 1))]"
  proof -
    from done_process_example have "map (\<lambda>s. (mesh s, mesh_obj s, trace s)) ws' =
       [([3, 3, 6, 6], ([3, 3, 7, 7], 2, 3),
         [Update, Check False, Allreduce_exit, Halo_exchange, Set_mesh,
          Update, Check False, Allreduce_exit, Halo_exchange, Set_mesh,
          Update, Check True, Allreduce_exit, Halo_exchange]),
        ([3, 3, 6, 6], ([2, 2, 6, 6], 2, 1),
         [Update, Check True, Allreduce_exit, Halo_exchange, Set_mesh,
          Allreduce_exit, Halo_exchange, Set_mesh, Allreduce_exit,
          Halo_exchange])]"
      unfolding a by simp
    then have "map ((\<lambda>t. (fst t, fst (snd t))) \<circ> (\<lambda>s. (mesh s, mesh_obj s, trace s))) ws' =
       [([3, 3, 6, 6], ([3, 3, 7, 7], 2, 3)), ([3, 3, 6, 6], ([2, 2, 6, 6], 2, 1))]"
      unfolding map_map[symmetric] by simp
    then show ?thesis by (simp add: r3 comp_def)
  qed
  show ?thesis
    by (rule exI[of _ m], rule exI[of _ ws'], intro conjI a l, rule exI[of _ ws1],
        rule exI[of _ ws2], intro conjI r1 r2 r3 r5 r4)
qed

subsection \<open>Termination of the three loops\<close>

text \<open>
  Claim C9. For a cap \<open>n_max \<ge> 2\<close>, every tolerance, every kernel and every start state, the
  sequential and the thread-parallel solver return, after a number \<open>j\<close> of sweeps with
  \<open>1 \<le> j \<le> n_max - 1\<close>. The distributed loop of a group as in claim C5 returns as well, with
  every process done, the common iteration count \<open>m \<le> n_max - 1\<close>, and at most \<open>m\<close> sweeps
  in the log of each process.
\<close>

theorem every_loop_terminates:
  assumes "2 \<le> n_max c" and "keeps_length K" and "2 \<le> length bufs"
    and "\<forall>r < length bufs. 2 * n \<le> length (bufs ! r) \<and>
           length (get_mesh K (ks ! r)) = length (bufs ! r)"
  shows "(\<exists>j. 1 \<le> j \<and> int j \<le> n_max c - 1 \<and>
            solution_finder_sequential K c s =
              Some (save_local K (swept (update_seq K) (s\<lparr>exit := False, iter := 1\<rparr>) j))) \<and>
         (\<exists>j. 1 \<le> j \<and> int j \<le> n_max c - 1 \<and>
            solution_finder_parallel K c n_tasks s =
              Some (save_local K (swept (update_par K n_tasks) (s\<lparr>exit := False, iter := 1\<rparr>) j))) \<and>
         (\<exists>ws' m. mpi_loop K c thread (map start_loop (process_group n bufs ks)) = Some (Inr ws') \<and>
            int m \<le> n_max c - 1 \<and>
            (\<forall>s \<in> set ws'. exit_local s \<and> iter s = int m \<and> count_list (trace s) Update \<le> m))"
proof (intro conjI)
  have i: "iter (s\<lparr>exit := False, iter := 1\<rparr>) \<le> n_max c - 1" using assms(1) by simp
  from local_loop_runs[OF i, of K "update_seq K"]
  show "\<exists>j. 1 \<le> j \<and> int j \<le> n_max c - 1 \<and>
            solution_finder_sequential K c s =
              Some (save_local K (swept (update_seq K) (s\<lparr>exit := False, iter := 1\<rparr>) j))"
    by (auto simp: solution_finder_sequential_def)
  from local_loop_runs[OF i, of K "update_par K n_tasks"]
  show "\<exists>j. 1 \<le> j \<and> int j \<le> n_max c - 1 \<and>
            solution_finder_parallel K c n_tasks s =
              Some (save_local K (swept (update_par K n_tasks) (s\<lparr>exit := False, iter := 1\<rparr>) j))"
    by (auto simp: solution_finder_parallel_def)
  from mpi_loop_group[OF assms(2,3,1,4), of thread] obtain ws' m where
    l: "mpi_loop K c thread (map start_loop (process_group n bufs ks)) = Some (Inr ws')"
    and inv: "in_loop K c n (\<lambda>r. length (bufs ! r)) m ws'" and e: "\<forall>s \<in> set ws'. exit s"
    by blast
  have "exit_local s \<and> iter s = int m \<and> count_list (trace s) Update \<le> m"
    if s: "s \<in> set ws'" for s
  proof -
    from inv e s obtain k where k: "1 \<le> k" "k \<le> m" "trace s = done_trace k m"
      and el: "exit_local s" "iter s = int m"
      by (auto simp: in_loop_def log_ok_def)
    have "count_list (trace s) Update = k" using k(1) by (simp add: k(3) done_trace_def)
    with k el show ?thesis by simp
  qed
  moreover have "int m \<le> n_max c - 1" using inv by (simp add: in_loop_def)
  ultimately show "\<exists>ws' m. mpi_loop K c thread (map start_loop (process_group n bufs ks)) = Some (Inr ws') \<and>
            int m \<le> n_max c - 1 \<and>
            (\<forall>s \<in> set ws'. exit_local s \<and> iter s = int m \<and> count_list (trace s) Update \<le> m)"
    using l by blast
qed

theorem every_loop_terminates_witness:
  "(\<exists>j. 1 \<le> j \<and> int j \<le> 3 - 1 \<and>
      solution_finder_sequential (sample_kernel (\<lambda>xs k. 1)) \<lparr>tolerance = 1 / 2, n_max = 3\<rparr>
        (Solver_init 0 1 [0, 0, 0, 0] 2 ([0, 0, 0, 0], 2, 0)) =
        Some (save_local (sample_kernel (\<lambda>xs k. 1))
          (swept (update_seq (sample_kernel (\<lambda>xs k. 1)))
             ((Solver_init 0 1 [0, 0, 0, 0] 2 ([0, 0, 0, 0], 2, 0))\<lparr>exit := False, iter := 1\<rparr>) j))) \<and>
   (\<exists>ws' m. mpi_loop (sample_kernel (\<lambda>xs k. 1)) \<lparr>tolerance = 1 / 2, n_max = 3\<rparr> 1
       (map start_loop (process_group 2 [[0, 0, 0, 0], [5, 5, 5, 5]]
          [([0, 0, 0, 0], 2, 0), ([5, 5, 5, 5], 2, 0)])) = Some (Inr ws') \<and>
       int m \<le> 3 - 1 \<and>
       list_all (\<lambda>s. exit_local s \<and> iter s = int m \<and> count_list (trace s) Update \<le> m) ws')"
proof -
  have kl: "keeps_length (sample_kernel (\<lambda>xs k. 1))"
    by (simp add: keeps_length_def sample_kernel_def split_def)
  have b: "\<forall>r < length [[0, 0, 0, 0], [5, 5, 5, 5 :: int]].
     2 * 2 \<le> length ([[0, 0, 0, 0], [5, 5, 5, 5 :: int]] ! r) \<and>
     length (get_mesh (sample_kernel (\<lambda>xs k. 1))
       ([([0, 0, 0, 0], 2, 0), ([5, 5, 5, 5], 2, 0)] ! r)) =
       length ([[0, 0, 0, 0], [5, 5, 5, 5 :: int]] ! r)"
    by (simp add: sample_kernel_def less_Suc_eq)
  have c: "2 \<le> n_max \<lparr>tolerance = 1 / 2, n_max = 3\<rparr>" by simp
  have l: "2 \<le> length [[0, 0, 0, 0], [5, 5, 5, 5 :: int]]" by simp
  show ?thesis
    using every_loop_terminates[OF c kl l b, of "Solver_init 0 1 [0, 0, 0, 0] 2 ([0, 0, 0, 0], 2, 0)" 4 1]
    by (simp add: list_all_iff)
qed

subsection \<open>The exchange of the last round\<close>

lemma after_loop_last_round:
  "after_loop K (round_of K c thread True m s) =
     after_loop K (after_exchange K (after_reduce K True (local_update K c thread s)))"
  by (simp add: round_of_def after_loop_def after_exchange_def after_reduce_def)

lemma always_done_round:
  assumes "mpi_round K c thread ws = Inr ws'" and "\<forall>k. get_error K k < tolerance c"
  shows "list_all exit ws'"
proof -
  let ?ex = "MPI_Allreduce_LAND (map (exit_local \<circ> local_update K c thread) ws)"
  from mpi_round_shape[OF assms(1)] have lw: "length ws' = length ws"
    and sh: "\<And>r. r < length ws \<Longrightarrow>
       ws' ! r = round_of K c thread ?ex (mesh (ws' ! r)) (ws ! r)"
    by simp_all
  have "?ex"
    using assms(2) by (simp add: MPI_Allreduce_LAND_def list_all_iff local_update_always)
  then have "exit (ws' ! r)" if "r < length ws" for r
    by (subst sh[OF that]) simp
  then show ?thesis using lw by (simp add: list_all_length)
qed

text \<open>
  Claim C10. Take a round of the distributed loop after which the loop ends (the reduction
  gave \<open>exit\<close>). The exchange is made (it is the last entry of every log), the kernel
  objects are the ones that the sweeps of this round left (no \<open>set_mesh\<close>), and the states
  that enter \<open>final_communication\<close> are those that result when the exchange is left out
  altogether: their buffers are fresh copies of the kernels' grids. So what the exchange
  of the last round delivered has no influence on what is gathered and written.
\<close>

theorem last_exchange_has_no_effect:
  assumes "mpi_round K c thread ws = Inr ws'" and "list_all exit ws'"
  shows "map (after_loop K) ws' =
           map (\<lambda>s. after_loop K
                  (after_exchange K (after_reduce K True (local_update K c thread s)))) ws \<and>
         map mesh_obj ws' = map (\<lambda>s. mesh_obj (local_update K c thread s)) ws \<and>
         list_all (\<lambda>s. \<exists>t. trace s = t @ [Halo_exchange]) ws' \<and>
         list_all (\<lambda>s. mesh (after_loop K s) = get_mesh K (mesh_obj s)) ws'"
proof -
  let ?ex = "MPI_Allreduce_LAND (map (exit_local \<circ> local_update K c thread) ws)"
  from mpi_round_shape[OF assms(1)] have lw: "length ws' = length ws"
    and sh: "\<And>r. r < length ws \<Longrightarrow>
       ws' ! r = round_of K c thread ?ex (mesh (ws' ! r)) (ws ! r)"
    by simp_all
  have ex: "?ex" if "r < length ws" for r
  proof -
    have "exit (ws' ! r)" using assms(2) that lw by (simp add: list_all_length)
    then show ?thesis by (subst (asm) sh[OF that]) simp
  qed
  have eq: "ws' ! r = round_of K c thread True (mesh (ws' ! r)) (ws ! r)" if "r < length ws" for r
    using sh[OF that] ex[OF that] by simp
  have 1: "map (after_loop K) ws' =
           map (\<lambda>s. after_loop K
                  (after_exchange K (after_reduce K True (local_update K c thread s)))) ws"
  proof (rule nth_equalityI)
    fix r assume "r < length (map (after_loop K) ws')"
    then have r: "r < length ws" using lw by simp
    have "after_loop K (ws' ! r) =
        after_loop K (after_exchange K (after_reduce K True (local_update K c thread (ws ! r))))"
      by (subst eq[OF r]) (rule after_loop_last_round)
    then show "map (after_loop K) ws' ! r =
           map (\<lambda>s. after_loop K
                  (after_exchange K (after_reduce K True (local_update K c thread s)))) ws ! r"
      using r lw by simp
  qed (simp add: lw)
  have 2: "map mesh_obj ws' = map (\<lambda>s. mesh_obj (local_update K c thread s)) ws"
  proof (rule nth_equalityI)
    fix r assume "r < length (map mesh_obj ws')"
    then have r: "r < length ws" using lw by simp
    have "mesh_obj (ws' ! r) = mesh_obj (local_update K c thread (ws ! r))"
      by (subst eq[OF r]) simp
    then show "map mesh_obj ws' ! r = map (\<lambda>s. mesh_obj (local_update K c thread s)) ws ! r"
      using r lw by simp
  qed (simp add: lw)
  have 3: "list_all (\<lambda>s. \<exists>t. trace s = t @ [Halo_exchange]) ws'"
    unfolding list_all_length
  proof (intro allI impI)
    fix r assume "r < length ws'"
    then have r: "r < length ws" using lw by simp
    show "\<exists>t. trace (ws' ! r) = t @ [Halo_exchange]"
      by (subst eq[OF r]) simp
  qed
  have 4: "list_all (\<lambda>s. mesh (after_loop K s) = get_mesh K (mesh_obj s)) ws'"
    by (simp add: list_all_iff after_loop_def)
  from 1 2 3 4 show ?thesis by blast
qed

theorem last_exchange_has_no_effect_witness:
  "\<exists>ws'. mpi_round (sample_kernel (\<lambda>xs k. 0)) \<lparr>tolerance = 1 / 2, n_max = 10\<rparr> 1
       (map start_loop (process_group 2 [[0, 0, 0, 0], [5, 5, 5, 5]]
          [([0, 0, 0, 0], 2, 0), ([5, 5, 5, 5], 2, 0)])) = Inr ws' \<and>
     list_all exit ws' \<and>
     map (after_loop (sample_kernel (\<lambda>xs k. 0))) ws' =
       map (\<lambda>s. after_loop (sample_kernel (\<lambda>xs k. 0))
              (after_exchange (sample_kernel (\<lambda>xs k. 0))
                 (after_reduce (sample_kernel (\<lambda>xs k. 0)) True
                    (local_update (sample_kernel (\<lambda>xs k. 0))
                       \<lparr>tolerance = 1 / 2, n_max = 10\<rparr> 1 s))))
         (map start_loop (process_group 2 [[0, 0, 0, 0], [5, 5, 5, 5]]
            [([0, 0, 0, 0], 2, 0), ([5, 5, 5, 5], 2, 0)])) \<and>
     list_all (\<lambda>s. \<exists>t. trace s = t @ [Halo_exchange]) ws'"
proof -
  let ?K = "sample_kernel (\<lambda>xs k. 0)" and ?c = "\<lparr>tolerance = 1 / 2, n_max = 10\<rparr>"
  let ?ws = "map start_loop (process_group 2 [[0, 0, 0, 0], [5, 5, 5, 5]]
          [([0, 0, 0, 0], 2, 0), ([5, 5, 5, 5 :: int], 2 :: nat, 0 :: nat)])"
  have kl: "keeps_length ?K"
    by (simp add: keeps_length_def sample_kernel_def split_def)
  have rd: "ready ?K 2 (\<lambda>r. 4) ?ws"
    by (simp add: ready_def process_group_def start_loop_def Solver_init_def sample_kernel_def less_Suc_eq)
  from mpi_round_ok[OF kl rd, of ?c 1] obtain ws' where r: "mpi_round ?K ?c 1 ?ws = Inr ws'"
    by blast
  have al: "\<forall>k. get_error ?K k < tolerance ?c" by (simp add: sample_kernel_def split_def)
  have e: "list_all exit ws'" by (rule always_done_round[OF r al])
  from last_exchange_has_no_effect[OF r e] r e show ?thesis by blast
qed

subsection \<open>A whole distributed run\<close>

lemma length_concat_same:
  "\<forall>x \<in> set xs. length (f x) = q \<Longrightarrow> length (concat (map f xs)) = length xs * q"
  by (induction xs) simp_all

lemma solution_finder_mpi_runs:
  assumes kl: "keeps_length K" and N2: "2 \<le> length bufs" and nm: "2 \<le> n_max c"
    and sz: "\<forall>r < length bufs. length (bufs ! r) = expected_size n (int (length bufs)) (int r) \<and>
           length (get_mesh K (ks ! r)) = length (bufs ! r)"
    and row: "n \<le> n * n div length bufs"
    and fm: "length bufs * (n * n div length bufs) \<le> length final_mesh"
    and small: "n * n div length bufs < 2 ^ 31"
  shows "\<exists>wsL m ws' fm'.
           mpi_loop K c thread (map start_loop (process_group n bufs ks)) = Some (Inr wsL) \<and>
           in_loop K c n (\<lambda>r. length (bufs ! r)) m wsL \<and> (\<forall>s \<in> set wsL. exit s) \<and>
           map (\<lambda>s. length (mesh (after_loop K s))) wsL = map length bufs \<and>
           solution_finder_mpi K c thread (process_group n bufs ks) final_mesh = Some (Inr (ws', fm')) \<and>
           final_communication_all K (map (after_loop K) wsL) final_mesh = Inr (ws', fm') \<and>
           fm' = concat (map (without_halo \<circ> after_loop K) wsL) @
                   drop (length bufs * (n * n div length bufs)) final_mesh \<and>
           length fm' = length final_mesh \<and>
           length ws' = length bufs \<and>
           console (ws' ! 0) = [Iter_line (int m)] \<and>
           files (ws' ! 0) = [(final_name K (length bufs) n fm', Mesh K fm' n)] \<and>
           (\<forall>r. 0 < r \<and> r < length bufs \<longrightarrow> console (ws' ! r) = [] \<and> files (ws' ! r) = [])"
proof -
  let ?N = "length bufs" and ?q = "n * n div length bufs"
  let ?L = "\<lambda>r. length (bufs ! r)"
  have two: "\<forall>r < ?N. 2 * n \<le> length (bufs ! r) \<and>
           length (get_mesh K (ks ! r)) = length (bufs ! r)"
    using sz row by (auto simp: expected_size_def)
  from mpi_loop_group[OF kl N2 nm two, of thread] obtain wsL m where
    l: "mpi_loop K c thread (map start_loop (process_group n bufs ks)) = Some (Inr wsL)"
    and lL: "length wsL = ?N"
    and inv: "in_loop K c n ?L m wsL" and e: "\<forall>s \<in> set wsL. exit s"
    by blast
  let ?wsA = "map (after_loop K) wsL"
  let ?fm' = "concat (map without_halo ?wsA) @ drop (length ?wsA * (n * n div length ?wsA)) final_mesh"
  have rd: "\<And>r. r < ?N \<Longrightarrow> rank (wsL ! r) = int r \<and> size_mpi (wsL ! r) = int ?N \<and>
      n_col (wsL ! r) = n \<and> length (get_mesh K (mesh_obj (wsL ! r))) = length (bufs ! r)"
    using inv lL by (simp add: in_loop_def ready_def)
  have each: "\<And>s. s \<in> set wsL \<Longrightarrow> iter s = int m \<and> console s = [] \<and> files s = []"
    using inv by (simp add: in_loop_def)
  have lens: "map (\<lambda>s. length (mesh (after_loop K s))) wsL = map length bufs"
    by (rule nth_equalityI) (simp_all add: lL after_loop_def rd)
  have a1: "1 \<le> length ?wsA" using N2 lL by simp
  have a2: "in_rank_order n ?wsA"
    using rd lL by (simp add: in_rank_order_def after_loop_def)
  have a3: "\<forall>r < length ?wsA. length (mesh (?wsA ! r)) =
      expected_size n (int (length ?wsA)) (int r)"
    using rd sz lL by (simp add: after_loop_def)
  have a4: "length ?wsA * (n * n div length ?wsA) \<le> length final_mesh"
    using fm lL by simp
  have a5: "n * n div length ?wsA < 2 ^ 31"
    using small lL by simp
  note fc = final_communication_all_ok(1)[OF a1 a2 a3 a4 a5, of K]
    final_communication_all_ok(2)[OF a1 a2 a3 a4 a5]
  let ?ws' = "map (save_final K ?fm' \<circ> gather_ready) ?wsA"
  have sol: "solution_finder_mpi K c thread (process_group n bufs ks) final_mesh = Some (Inr (?ws', ?fm'))"
    by (simp add: solution_finder_mpi_def l fc(1))
  have lc: "length (concat (map without_halo ?wsA)) = ?N * ?q"
    using length_concat_same[of ?wsA without_halo "n * n div length ?wsA"] fc(2) lL by simp
  have lfm: "length ?fm' = length final_mesh" using lc fm lL by simp
  have r0: "0 < length wsL" using N2 lL by linarith
  then have m0: "wsL ! 0 \<in> set wsL" by simp
  have c0: "console (?ws' ! 0) = [Iter_line (int m)]"
    using r0 rd[of 0] each[OF m0] lL
    by (simp add: save_final_def gather_ready_def after_loop_def Let_def)
  have f0: "files (?ws' ! 0) = [(final_name K ?N n ?fm', Mesh K ?fm' n)]"
    using r0 rd[of 0] each[OF m0] lL
    by (simp add: save_final_def gather_ready_def after_loop_def Let_def final_name_def)
  have others: "console (?ws' ! r) = [] \<and> files (?ws' ! r) = []" if "0 < r" "r < ?N" for r
  proof -
    have "wsL ! r \<in> set wsL" using that lL by simp
    from each[OF this] rd[OF that(2)] that lL show ?thesis
      by (simp add: save_final_def gather_ready_def after_loop_def Let_def)
  qed
  show ?thesis
    apply (rule exI[of _ wsL], rule exI[of _ m], rule exI[of _ ?ws'], rule exI[of _ ?fm'])
    using l inv e lens sol fc(1) lfm c0 f0 others lL by (simp add: comp_def)
qed

subsection \<open>A group of one process\<close>

text \<open>The scatter changes nothing of a process but its buffer.\<close>

lemma do_send_forget:
  assumes "do_send eager im c w = Some (Inr w')"
  shows "skeleton w' = skeleton w"
  using assms
  by (auto simp: do_send_def Let_def skeleton_update
      split: if_splits option.splits list.splits)

lemma serve_sends_forget:
  "serve_sends eager im cs w = Some (Inr w') \<Longrightarrow> skeleton w' = skeleton w"
proof (induction cs arbitrary: w)
  case Nil
  then show ?case by simp
next
  case (Cons c cs)
  then show ?case
    by (auto split: option.splits sum.splits dest!: do_send_forget)
qed

lemma collect_forget:
  assumes "\<And>s s'. f s = Inr s' \<Longrightarrow> forget_mesh s' = forget_mesh s"
  shows "collect (map f ws) = Inr ws' \<Longrightarrow> map forget_mesh ws' = map forget_mesh ws"
proof (induction ws arbitrary: ws')
  case Nil
  then show ?case by simp
next
  case (Cons s ws)
  then show ?case using assms
    by (auto split: sum.splits)
qed

lemma initial_communication_all_forget:
  assumes "initial_communication_all eager im ws = Some (Inr ws')"
  shows "map forget_mesh ws' = map forget_mesh ws"
proof -
  let ?calls = "\<lambda>s. initial_communication_calls (n_col s) (size_mpi s) (rank s)"
  from assms obtain ws1 w where
    c: "collect (map (\<lambda>s. if rank s = 0 then initial_copy im s else Inr s) ws) = Inr ws1"
    and sv: "serve_sends eager im (filter is_send (concat (map ?calls ws)))
                  (map (\<lambda>s. (s, filter (\<lambda>c. \<not> is_send c) (?calls s))) ws1) = Some (Inr w)"
    and ws': "ws' = map fst w"
    by (auto simp: initial_communication_all_def Let_def split: sum.splits option.splits if_splits)
  have 1: "map forget_mesh ws1 = map forget_mesh ws"
    by (rule collect_forget[OF _ c])
       (auto simp: initial_copy_def Let_def split: if_splits)
  from serve_sends_forget[OF sv] have "map forget_mesh ws' = map forget_mesh ws1"
    by (simp add: ws' skeleton_def comp_def)
  with 1 show ?thesis by simp
qed

lemma single_process_round:
  assumes "rank s = 0"
  shows "mpi_round K c thread [s] = Inl (Invalid_rank 1)"
  using assms
  by (simp add: mpi_round_def communicate_boundary_all_def serve_rank_def do_sendrecv_def
      communicate_boundary_def after_reduce_def Let_def)

lemma single_process_loop:
  assumes "rank s = 0"
  shows "solution_finder_mpi K c thread [s] final_mesh = Some (Inl (Invalid_rank 1))"
proof -
  have "rank (start_loop s) = 0" using assms by (simp add: start_loop_def)
  then have "mpi_round K c thread [start_loop s] = Inl (Invalid_rank 1)"
    by (rule single_process_round)
  then have "mpi_loop K c thread [start_loop s] = Some (Inl (Invalid_rank 1))"
    by (subst mpi_loop.simps) simp
  then show ?thesis by (simp add: solution_finder_mpi_def)
qed

text \<open>
  Claim C4, as the code has it. The distributed mode has no case for a group of one
  process: rank 0 is then the last rank as well, the scatter sends to rank 0 itself, and
  the halo exchange of rank 0 is with rank 1. Whether the library buffers a send or not, a
  run of the distributed mode in a group of one process hands back no gathered grid. (The
  single-process runs are the business of the sequential and the thread-parallel solver,
  which name their file \<open>approx_sol-1-...\<close>.)
\<close>

theorem single_process_no_grid:
  assumes "rank s = 0"
  shows "gathered_grid (distributed_mode eager K c thread initial_mesh [s] final_mesh) = None"
proof (cases "initial_communication_all eager initial_mesh [s]")
  case None
  then show ?thesis by (simp add: distributed_mode_def gathered_grid_def)
next
  case (Some res)
  show ?thesis
  proof (cases res)
    case (Inl e)
    then show ?thesis using Some by (simp add: distributed_mode_def gathered_grid_def)
  next
    case (Inr ws')
    have "map forget_mesh ws' = map forget_mesh [s]"
      by (rule initial_communication_all_forget) (use Some Inr in simp)
    then obtain s' where ws': "ws' = [s']" and f: "forget_mesh s' = forget_mesh s"
      by auto
    have "rank (forget_mesh s') = rank (forget_mesh s)" using f by simp
    then have "rank s' = 0" using assms by (simp add: forget_mesh_def)
    then have "rank (s'\<lparr>mesh_obj := set_mesh K (mesh s') (mesh_obj s')\<rparr>) = 0" by simp
    from single_process_loop[OF this] show ?thesis
      using Some Inr ws' by (simp add: distributed_mode_def gathered_grid_def)
  qed
qed

theorem single_process_no_grid_witness:
  "gathered_grid
     (distributed_mode True (sample_kernel (\<lambda>xs k. 0)) \<lparr>tolerance = 1 / 2, n_max = 10\<rparr> 4
        [1, 2, 3, 4, 5, 6]
        [Solver_init 0 1 [0, 0, 0, 0, 0, 0] 2 ([0, 0, 0, 0, 0, 0], 2, 0)] [0, 0, 0, 0])
   = None"
  using single_process_no_grid[of "Solver_init 0 1 [0, 0, 0, 0, 0, 0] 2 ([0, 0, 0, 0, 0, 0], 2, 0)"
      True "sample_kernel (\<lambda>xs k. 0)" "\<lparr>tolerance = 1 / 2, n_max = 10\<rparr>" 4 "[1, 2, 3, 4, 5, 6]"
      "[0, 0, 0, 0]"]
  by (simp add: Solver_init_def)

text \<open>
  On the same kernel, tolerance and grid of 2 rows of 2 columns, the distributed mode with
  one process ends in the scatter, which copies 6 elements out of the 4 of the grid, and
  the sequential mode returns the grid \<open>[2, 3, 4, 5]\<close>.
\<close>

theorem single_process_counterexample:
  "distributed_mode True (sample_kernel (\<lambda>xs k. 0)) \<lparr>tolerance = 1 / 2, n_max = 10\<rparr> 1
     [1, 2, 3, 4] [Solver_init 0 1 [0, 0, 0, 0, 0, 0] 2 ([0, 0, 0, 0, 0, 0], 2, 0)] [0, 0, 0, 0]
   = Some (Inl Out_of_range) \<and>
   distributed_mode False (sample_kernel (\<lambda>xs k. 0)) \<lparr>tolerance = 1 / 2, n_max = 10\<rparr> 1
     [1, 2, 3, 4] [Solver_init 0 1 [0, 0, 0, 0, 0, 0] 2 ([0, 0, 0, 0, 0, 0], 2, 0)] [0, 0, 0, 0]
   = Some (Inl Out_of_range) \<and>
   map_option (\<lambda>s. get_mesh (sample_kernel (\<lambda>xs k. 0)) (mesh_obj s))
     (solution_finder_sequential (sample_kernel (\<lambda>xs k. 0)) \<lparr>tolerance = 1 / 2, n_max = 10\<rparr>
        (Solver_init 0 1 [1, 2, 3, 4] 2 ([1, 2, 3, 4], 2, 0)))
   = Some [2, 3, 4, 5]"
  by (simp add: distributed_mode_def initial_communication_all_def initial_copy_def
      expected_size_def solution_finder_sequential_def local_loop.simps local_pass_def save_local_def
      sample_kernel_def Solver_init_def Let_def)

subsection \<open>Reaching the iteration cap\<close>






subsection \<open>Three workers on nine rows\<close>

lemma to_string_digit: "k < 10 \<Longrightarrow> to_string_nat k = [''0123456789'' ! k]"
  by (subst to_string_nat.simps) simp

text \<open>
  Claim C3, as the code has it. The code's grid is square: with \<open>n = 9\<close> columns it has 9
  rows. Take 3 workers with buffers of the sizes of the scatter, a kernel that keeps the
  size of its grid and reports \<open>length div columns\<close> rows for a grid it is constructed
  from, a tolerance above every residual, and a vector of \<open>9 * 9\<close> elements for the result.
  Then the loop makes one round on every worker; before the gather the local buffers hold
  \<open>3 * 9 + 9\<close>, \<open>3 * 9 + 2 * 9\<close> and \<open>3 * 9 + 9\<close> elements; the gathered grid has \<open>9 * 9\<close>
  elements; and rank 0 writes it to \<open>vtk_files/approx_sol-3-9.vtk\<close>.
\<close>

theorem nine_rows_three_workers:
  assumes kl: "keeps_length K" and nm: "2 \<le> n_max c"
    and always: "\<forall>k. get_error K k < tolerance c"
    and gs: "\<forall>xs. get_size K (Mesh K xs 9) = (length xs div 9, 9)"
    and l3: "length bufs = 3"
    and sz: "\<forall>r < 3. length (bufs ! r) = expected_size 9 3 (int r) \<and>
           length (get_mesh K (ks ! r)) = length (bufs ! r)"
    and fm: "length final_mesh = 9 * 9"
  shows "\<exists>wsL ws' fm'.
           mpi_loop K c thread (map start_loop (process_group 9 bufs ks)) = Some (Inr wsL) \<and>
           (\<forall>s \<in> set wsL. iter s = 1 \<and>
              trace s = [Update, Check True, Allreduce_exit, Halo_exchange]) \<and>
           map (\<lambda>s. length (mesh (after_loop K s))) wsL = [3 * 9 + 9, 3 * 9 + 2 * 9, 3 * 9 + 9] \<and>
           solution_finder_mpi K c thread (process_group 9 bufs ks) final_mesh = Some (Inr (ws', fm')) \<and>
           length fm' = 9 * 9 \<and>
           files (ws' ! 0) = [(''vtk_files/approx_sol-3-9.vtk'', Mesh K fm' 9)]"
proof -
  have N2: "2 \<le> length bufs" using l3 by simp
  have sz': "\<forall>r < length bufs. length (bufs ! r) = expected_size 9 (int (length bufs)) (int r) \<and>
           length (get_mesh K (ks ! r)) = length (bufs ! r)"
    using sz l3 by simp
  have row: "9 \<le> 9 * 9 div length bufs" using l3 by simp
  have fm': "length bufs * (9 * 9 div length bufs) \<le> length final_mesh" using l3 fm by simp
  have small: "9 * 9 div length bufs < 2 ^ 31" using l3 by simp
  from solution_finder_mpi_runs[OF kl N2 nm sz' row fm' small, of thread] obtain wsL m ws' fm' where
    lL: "mpi_loop K c thread (map start_loop (process_group 9 bufs ks)) = Some (Inr wsL)"
    and inv: "in_loop K c 9 (\<lambda>r. length (bufs ! r)) m wsL" and e: "\<forall>s \<in> set wsL. exit s"
    and lens: "map (\<lambda>s. length (mesh (after_loop K s))) wsL = map length bufs"
    and sol: "solution_finder_mpi K c thread (process_group 9 bufs ks) final_mesh = Some (Inr (ws', fm'))"
    and lfm: "length fm' = length final_mesh"
    and f0: "files (ws' ! 0) = [(final_name K (length bufs) 9 fm', Mesh K fm' 9)]"
    by blast
  have m1: "m = 1" using inv always by (simp add: in_loop_def)
  have tr: "iter s = 1 \<and> trace s = [Update, Check True, Allreduce_exit, Halo_exchange]"
    if "s \<in> set wsL" for s
  proof -
    from inv e that m1 obtain k where "1 \<le> k" "k \<le> 1" "trace s = done_trace k 1" "iter s = 1"
      by (auto simp: in_loop_def log_ok_def)
    then show ?thesis by (simp add: done_trace_def busy_def idle_def)
  qed
  have bl: "map length bufs = [3 * 9 + 9, 3 * 9 + 2 * 9, 3 * 9 + 9]"
  proof (rule nth_equalityI)
    fix r assume "r < length (map length bufs)"
    then have "r < 3" using l3 by simp
    then consider "r = 0" | "r = 1" | "r = 2" by linarith
    then show "map length bufs ! r = [3 * 9 + 9, 3 * 9 + 2 * 9, 3 * 9 + 9] ! r"
      using sz l3 by cases (simp_all add: expected_size_def)
  qed (simp add: l3)
  have "to_string 3 = ''3''" by (simp add: to_string_def to_string_digit)
  moreover have "to_string_nat (length fm' div 9) = ''9''"
    using lfm fm by (simp add: to_string_digit)
  ultimately have nm': "final_name K (length bufs) 9 fm' = ''vtk_files/approx_sol-3-9.vtk''"
    using gs l3 by (simp add: final_name_def)
  have l81: "length fm' = 9 * 9" using lfm fm by simp
  from tr have tr': "\<forall>s \<in> set wsL. iter s = 1 \<and>
      trace s = [Update, Check True, Allreduce_exit, Halo_exchange]" by blast
  show ?thesis
    by (rule exI[of _ wsL], rule exI[of _ ws'], rule exI[of _ fm'])
       (use lL tr' lens sol l81 f0 in \<open>simp add: bl nm'\<close>)
qed

theorem nine_rows_three_workers_witness:
  "\<exists>wsL ws' fm'.
     mpi_loop (sample_kernel (\<lambda>xs k. 0)) \<lparr>tolerance = 1 / 2, n_max = 10\<rparr> 1
       (map start_loop (process_group 9 [replicate 36 0, replicate 45 0, replicate 36 0]
          [(replicate 36 0, 9, 0), (replicate 45 0, 9, 0), (replicate 36 0, 9, 0)])) =
       Some (Inr wsL) \<and>
     map (\<lambda>s. length (mesh (after_loop (sample_kernel (\<lambda>xs k. 0)) s))) wsL = [36, 45, 36] \<and>
     solution_finder_mpi (sample_kernel (\<lambda>xs k. 0)) \<lparr>tolerance = 1 / 2, n_max = 10\<rparr> 1
       (process_group 9 [replicate 36 0, replicate 45 0, replicate 36 0]
          [(replicate 36 0, 9, 0), (replicate 45 0, 9, 0), (replicate 36 0, 9, 0)])
       (replicate 81 0) = Some (Inr (ws', fm')) \<and>
     length fm' = 81 \<and>
     files (ws' ! 0) = [(''vtk_files/approx_sol-3-9.vtk'', (fm', 9, 0))]"
proof -
  let ?K = "sample_kernel (\<lambda>xs k. 0)" and ?c = "\<lparr>tolerance = 1 / 2, n_max = 10\<rparr>"
  let ?bufs = "[replicate 36 0, replicate 45 0, replicate 36 (0 :: int)]"
  let ?ks = "[(replicate 36 0, 9, 0), (replicate 45 0, 9, 0), (replicate 36 (0 :: int), 9 :: nat, 0 :: nat)]"
  have kl: "keeps_length ?K" by (simp add: keeps_length_def sample_kernel_def split_def)
  have nm: "2 \<le> n_max ?c" by simp
  have al: "\<forall>k. get_error ?K k < tolerance ?c" by (simp add: sample_kernel_def split_def)
  have gs: "\<forall>xs. get_size ?K (Mesh ?K xs 9) = (length xs div 9, 9)"
    by (simp add: sample_kernel_def)
  have l3: "length ?bufs = 3" by simp
  have sz: "\<forall>r < 3. length (?bufs ! r) = expected_size 9 3 (int r) \<and>
           length (get_mesh ?K (?ks ! r)) = length (?bufs ! r)"
  proof (intro allI impI)
    fix r :: nat assume "r < 3"
    then consider "r = 0" | "r = 1" | "r = 2" by linarith
    then show "length (?bufs ! r) = expected_size 9 3 (int r) \<and>
           length (get_mesh ?K (?ks ! r)) = length (?bufs ! r)"
      by cases (simp_all add: expected_size_def sample_kernel_def)
  qed
  have fm: "length (replicate 81 (0 :: int)) = 9 * 9" by simp
  from nine_rows_three_workers[OF kl nm al gs l3 sz fm, of 1] obtain wsL ws' fm' where
    a: "mpi_loop ?K ?c 1 (map start_loop (process_group 9 ?bufs ?ks)) = Some (Inr wsL)"
    and b: "map (\<lambda>s. length (mesh (after_loop ?K s))) wsL = [3 * 9 + 9, 3 * 9 + 2 * 9, 3 * 9 + 9]"
    and c: "solution_finder_mpi ?K ?c 1 (process_group 9 ?bufs ?ks) (replicate 81 0) =
       Some (Inr (ws', fm'))"
    and d: "length fm' = 9 * 9"
    and e: "files (ws' ! 0) = [(''vtk_files/approx_sol-3-9.vtk'', Mesh ?K fm' 9)]"
    by (elim exE conjE)
  have m: "Mesh ?K fm' 9 = (fm', 9, 0)" by (simp add: sample_kernel_def)
  show ?thesis
    by (rule exI[of _ wsL], rule exI[of _ ws'], rule exI[of _ fm'])
       (use a b c d e in \<open>simp add: m\<close>)
qed

text \<open>
  With \<open>n = 3\<close> columns and 3 workers the scatter hands out 6, 9 and 6 elements (not 12, 15
  and 12), taken from the first three rows of the grid.
\<close>

theorem nine_by_three_counterexample:
  "expected_size 3 3 0 = 6 \<and> expected_size 3 3 1 = 9 \<and> expected_size 3 3 2 = 6 \<and>
   initial_communication_calls 3 3 0 = [MPI_Send 3 6 2, MPI_Send 0 9 1]"
  by (simp add: expected_size_def initial_communication_calls_def slice_first_def Let_def
      upto.simps)

end
